theory Spec2Isabelle
  imports Complex_Main "HOL-Library.Log_Nat"
begin


section \<open>Python values, errors and the library functions the generator calls\<close>

text \<open>
  The generator \<^verbatim>\<open>dataGenerator.py\<close> produces four streams of tuples (products,
  customers, orders, order items), writes each to a CSV file and bulk-loads the file.
  A tuple field is an \<^verbatim>\<open>int\<close>, a \<^verbatim>\<open>float\<close> or a \<^verbatim>\<open>str\<close>. Exceptions are values of
  \<open>py_error\<close>; a computation that may raise returns \<open>py_error + 'a\<close>.

  A Python float is modelled by the rational number it denotes. A decimal literal of the
  source (\<^verbatim>\<open>0.40\<close>, \<^verbatim>\<open>0.85\<close>) is read as the decimal written; the result of float
  arithmetic and of \<^verbatim>\<open>round(x, 2)\<close> is rounded to the nearest binary64 value by
  \<open>binary64\<close> (round-to-nearest, ties-to-even, 53-bit significand; the exponent range
  is not bounded, and the values of the generator stay far from its ends).
\<close>

datatype py_error = ValueError | ZeroDivisionError | IndexError

datatype pyval = PInt int | PFloat rat | PStr string

type_synonym row = "pyval list"

subsection \<open>Floats\<close>

definition round_half_even :: "rat \<Rightarrow> int" where
  "round_half_even x =
     (let f = \<lfloor>x\<rfloor>; d = x - of_int f
      in if d < 1/2 then f else if 1/2 < d then f + 1 else if even f then f else f + 1)"

text \<open>\<open>ilog2 x\<close> is the binary exponent of a positive rational: \<open>2^e \<le> x < 2^(e+1)\<close>.\<close>

definition ilog2 :: "rat \<Rightarrow> int" where
  "ilog2 x =
     (let (p, q) = quotient_of x; e0 = bitlen p - bitlen q
      in if 2 powi e0 \<le> x then e0 else e0 - 1)"

definition binary64 :: "rat \<Rightarrow> rat" where
  "binary64 x =
     (if x = 0 then 0
      else let e = ilog2 \<bar>x\<bar> - 52
           in of_int (round_half_even (x / 2 powi e)) * 2 powi e)"

text \<open>
  \<^verbatim>\<open>round(x, ndigits)\<close> on a float: CPython rounds the exact value of \<open>x\<close> to
  \<open>ndigits\<close> decimals, ties to even, and converts the decimal back to a float.
\<close>

definition py_round :: "rat \<Rightarrow> nat \<Rightarrow> rat" where
  "py_round x ndigits = binary64 (of_int (round_half_even (x * 10 ^ ndigits)) / 10 ^ ndigits)"

text \<open>\<^verbatim>\<open>int(x)\<close> on a float truncates toward zero.\<close>

definition py_int :: "rat \<Rightarrow> int" where
  "py_int x = (if 0 \<le> x then \<lfloor>x\<rfloor> else \<lceil>x\<rceil>)"

subsection \<open>Text of integers and floats\<close>

definition digit_char :: "int \<Rightarrow> char" where
  "digit_char d =
     (if d = 0 then CHR ''0'' else if d = 1 then CHR ''1'' else if d = 2 then CHR ''2''
      else if d = 3 then CHR ''3'' else if d = 4 then CHR ''4'' else if d = 5 then CHR ''5''
      else if d = 6 then CHR ''6'' else if d = 7 then CHR ''7'' else if d = 8 then CHR ''8''
      else CHR ''9'')"

text \<open>The decimal digits of a non-negative integer.\<close>

function digits :: "int \<Rightarrow> string" where
  "digits n = (if n < 10 then [digit_char n] else digits (n div 10) @ [digit_char (n mod 10)])"
  by pat_completeness auto
termination
  by (relation "measure nat") auto

declare digits.simps [simp del]

text \<open>\<^verbatim>\<open>str(i)\<close> for an int.\<close>

definition py_str_int :: "int \<Rightarrow> string" where
  "py_str_int i = (if i < 0 then CHR ''-'' # digits (- i) else digits i)"

text \<open>Zero-padded decimal, as \<^verbatim>\<open>%02d\<close> and \<^verbatim>\<open>%04d\<close>.\<close>

definition zero_pad :: "nat \<Rightarrow> int \<Rightarrow> string" where
  "zero_pad w i = (let s = digits i in replicate (w - length s) CHR ''0'' @ s)"

text \<open>The decimal exponent of a positive rational: \<open>10^e \<le> x < 10^(e+1)\<close>.\<close>

definition ilog10 :: "rat \<Rightarrow> int" where
  "ilog10 x =
     (let (p, q) = quotient_of x;
          e0 = int (length (digits p)) - int (length (digits q))
      in if 10 powi e0 \<le> x then e0 else e0 - 1)"

text \<open>
  \<^verbatim>\<open>repr\<close> of a float is the shortest decimal that converts back to the same float.
  \<open>shortest_digits x e n k\<close> tries \<open>n, n+1, \<dots>\<close> significant digits (\<open>k\<close> tries are left)
  and returns the digits as an integer together with the number of digits tried.
\<close>

fun shortest_digits :: "rat \<Rightarrow> int \<Rightarrow> nat \<Rightarrow> nat \<Rightarrow> int \<times> nat" where
  "shortest_digits x e n 0 = (round_half_even (x / 10 powi (e - int n + 1)), n)"
| "shortest_digits x e n (Suc k) =
     (let scale = 10 powi (e - int n + 1);
          lo = \<lfloor>x / scale\<rfloor>; hi = lo + 1;
          lo_ok = (binary64 (of_int lo * scale) = x);
          hi_ok = (binary64 (of_int hi * scale) = x)
      in if lo_ok \<and> hi_ok then
           (if x / scale - of_int lo \<le> of_int hi - x / scale then (lo, n) else (hi, n))
         else if lo_ok then (lo, n)
         else if hi_ok then (hi, n)
         else shortest_digits x e (Suc n) k)"

fun strip_zeros :: "int \<Rightarrow> nat \<Rightarrow> int \<times> nat" where
  "strip_zeros m 0 = (m, 0)"
| "strip_zeros m (Suc k) = (if m mod 10 = 0 \<and> m \<noteq> 0 then
      (case strip_zeros (m div 10) k of (m', z) \<Rightarrow> (m', Suc z)) else (m, 0))"

definition repr_pos :: "rat \<Rightarrow> string" where
  "repr_pos x =
     (let e = ilog10 x;
          (m0, n) = shortest_digits x e 1 16;
          (m, z) = strip_zeros m0 20;
          ds = digits m;
          decpt = e + 1 + (int (length ds) + int z - int n)
      in if decpt \<le> - 4 \<or> 16 < decpt then
           (let ex = decpt - 1;
                mant = (if length ds = 1 then ds else hd ds # CHR ''.'' # tl ds);
                exs = digits \<bar>ex\<bar>
            in mant @ [CHR ''e'', if ex < 0 then CHR ''-'' else CHR ''+'']
                 @ (if length exs < 2 then CHR ''0'' # exs else exs))
         else if decpt \<le> 0 then
           ''0.'' @ replicate (nat (- decpt)) CHR ''0'' @ ds
         else if int (length ds) \<le> decpt then
           ds @ replicate (nat (decpt - int (length ds))) CHR ''0'' @ ''.0''
         else take (nat decpt) ds @ CHR ''.'' # drop (nat decpt) ds)"

definition py_repr_float :: "rat \<Rightarrow> string" where
  "py_repr_float x =
     (if x = 0 then ''0.0'' else if x < 0 then CHR ''-'' # repr_pos (- x) else repr_pos x)"

text \<open>What \<^verbatim>\<open>csv.writer\<close> turns a field into before quoting.\<close>

fun py_str :: "pyval \<Rightarrow> string" where
  "py_str (PInt i) = py_str_int i"
| "py_str (PFloat x) = py_repr_float x"
| "py_str (PStr s) = s"

definition lower_char :: "char \<Rightarrow> char" where
  "lower_char c =
     (let n = (of_char c :: nat) in if 65 \<le> n \<and> n \<le> 90 then char_of (n + 32) else c)"

text \<open>\<^verbatim>\<open>s.lower()\<close>, on ASCII text.\<close>

definition py_lower :: "string \<Rightarrow> string" where
  "py_lower s = map lower_char s"

subsection \<open>Dates and times\<close>

text \<open>
  A \<^verbatim>\<open>date\<close> is its number of days since 1970-01-01, a \<^verbatim>\<open>datetime\<close> its number of
  microseconds since 1970-01-01 00:00:00, a \<^verbatim>\<open>timedelta\<close> a number of microseconds.
\<close>

definition civil_from_days :: "int \<Rightarrow> int \<times> int \<times> int" where
  "civil_from_days days =
     (let z = days + 719468;
          era = z div 146097;
          doe = z - era * 146097;
          yoe = (doe - doe div 1460 + doe div 36524 - doe div 146096) div 365;
          y = yoe + era * 400;
          doy = doe - (365 * yoe + yoe div 4 - yoe div 100);
          mp = (5 * doy + 2) div 153;
          d = doy - (153 * mp + 2) div 5 + 1;
          m = (if mp < 10 then mp + 3 else mp - 9)
      in (if m \<le> 2 then y + 1 else y, m, d))"

text \<open>\<^verbatim>\<open>date.isoformat()\<close>.\<close>

definition isoformat :: "int \<Rightarrow> string" where
  "isoformat days =
     (case civil_from_days days of (y, m, d) \<Rightarrow>
        zero_pad 4 y @ ''-'' @ zero_pad 2 m @ ''-'' @ zero_pad 2 d)"

text \<open>\<^verbatim>\<open>dt.strftime("%Y-%m-%d %H:%M:%S")\<close>.\<close>

definition strftime :: "int \<Rightarrow> string" where
  "strftime t =
     (let secs = t div 1000000; sod = secs mod 86400
      in isoformat (secs div 86400) @ '' '' @ zero_pad 2 (sod div 3600) @ '':''
           @ zero_pad 2 (sod mod 3600 div 60) @ '':'' @ zero_pad 2 (sod mod 60))"

definition timedelta_days :: "int \<Rightarrow> int" where
  "timedelta_days d = d * 86400 * 1000000"

definition timedelta_seconds :: "int \<Rightarrow> int" where
  "timedelta_seconds s = s * 1000000"

text \<open>\<^verbatim>\<open>delta.total_seconds()\<close>: microseconds divided by \<open>10^6\<close>, as a float.\<close>

definition total_seconds :: "int \<Rightarrow> rat" where
  "total_seconds delta = binary64 (of_int delta / 1000000)"


subsection \<open>The random source and the Faker instance\<close>

text \<open>
  The module-level \<^verbatim>\<open>random\<close> generator is a state of type \<open>'s\<close> with the draws the
  program makes. Each draw returns a value and the next state. \<open>rs_randbelow n\<close> is the
  index drawn by \<^verbatim>\<open>random.choice\<close> on a sequence of length \<open>n\<close>.
\<close>

datatype 's random_source = RandomSource
  (rs_seed: "int \<Rightarrow> 's")
  (rs_random: "'s \<Rightarrow> rat \<times> 's")
  (rs_randbelow: "nat \<Rightarrow> 's \<Rightarrow> nat \<times> 's")
  (rs_randint: "int \<Rightarrow> int \<Rightarrow> 's \<Rightarrow> int \<times> 's")
  (rs_uniform: "rat \<Rightarrow> rat \<Rightarrow> 's \<Rightarrow> rat \<times> 's")
  (rs_gauss: "rat \<Rightarrow> rat \<Rightarrow> 's \<Rightarrow> rat \<times> 's")

text \<open>
  What the library guarantees of its draws: \<^verbatim>\<open>random()\<close> lies in \<open>[0, 1)\<close>,
  \<^verbatim>\<open>randint(a, b)\<close> and \<^verbatim>\<open>uniform(a, b)\<close> in \<open>[a, b]\<close>, the index of
  \<^verbatim>\<open>choice\<close> below the length, and \<^verbatim>\<open>gauss(mu, sigma)\<close> within nine \<open>sigma\<close> of
  \<open>mu\<close> (it is \<open>mu + z * sigma\<close> with \<open>z\<close> computed from two draws of \<^verbatim>\<open>random()\<close>,
  which bounds \<open>\<bar>z\<bar>\<close> by \<open>sqrt (106 * ln 2) < 8.6\<close>).
\<close>

definition rng_ok :: "'s random_source \<Rightarrow> bool" where
  "rng_ok R \<longleftrightarrow>
     (\<forall>s. 0 \<le> fst (rs_random R s) \<and> fst (rs_random R s) < 1) \<and>
     (\<forall>n s. 0 < n \<longrightarrow> fst (rs_randbelow R n s) < n) \<and>
     (\<forall>a b s. a \<le> b \<longrightarrow> a \<le> fst (rs_randint R a b s) \<and> fst (rs_randint R a b s) \<le> b) \<and>
     (\<forall>a b s. a \<le> b \<longrightarrow> a \<le> fst (rs_uniform R a b s) \<and> fst (rs_uniform R a b s) \<le> b) \<and>
     (\<forall>mu sigma s. 0 \<le> sigma \<longrightarrow> \<bar>fst (rs_gauss R mu sigma s) - mu\<bar> \<le> 9 * sigma)"

text \<open>\<^verbatim>\<open>random.randint(a, b)\<close> raises \<^verbatim>\<open>ValueError\<close> on an empty range.\<close>

definition py_randint :: "'s random_source \<Rightarrow> int \<Rightarrow> int \<Rightarrow> 's \<Rightarrow> py_error + (int \<times> 's)" where
  "py_randint R a b s = (if b < a then Inl ValueError else Inr (rs_randint R a b s))"

text \<open>\<^verbatim>\<open>random.choice(seq)\<close> raises \<^verbatim>\<open>IndexError\<close> on an empty sequence.\<close>

definition py_choice :: "'s random_source \<Rightarrow> 'a list \<Rightarrow> 's \<Rightarrow> py_error + ('a \<times> 's)" where
  "py_choice R xs s =
     (if xs = [] then Inl IndexError
      else case rs_randbelow R (length xs) s of (i, s') \<Rightarrow> Inr (xs ! i, s'))"

definition py_bind :: "py_error + 'a \<Rightarrow> ('a \<Rightarrow> py_error + 'b) \<Rightarrow> py_error + 'b" where
  "py_bind m f = (case m of Inl e \<Rightarrow> Inl e | Inr x \<Rightarrow> f x)"

text \<open>
  The \<^verbatim>\<open>Faker\<close> instance is a second, separate source with its own state \<open>'f\<close>.
  \<open>fk_date_between\<close> returns a date; with the end \<^verbatim>\<open>"today"\<close> its result depends on
  the day the call is made, which is part of the instance given.
\<close>

datatype 'f faker = Faker
  (fk_seed_instance: "int \<Rightarrow> 'f")
  (fk_first_name: "'f \<Rightarrow> string \<times> 'f")
  (fk_last_name: "'f \<Rightarrow> string \<times> 'f")
  (fk_city: "'f \<Rightarrow> string \<times> 'f")
  (fk_date_between: "string \<Rightarrow> string \<Rightarrow> 'f \<Rightarrow> int \<times> 'f")

section \<open>The row producers\<close>

text \<open>
  A producer is a Python generator. Run to its end it has yielded a list of rows and
  either finished or raised; \<open>run_generator body n i st\<close> is the loop
  \<^verbatim>\<open>id = i; for _ in range(n): <body>; yield row; id += 1\<close>
  started in state \<open>st\<close>.
\<close>

fun run_generator ::
  "(int \<Rightarrow> 'st \<Rightarrow> py_error + (row \<times> 'st)) \<Rightarrow> nat \<Rightarrow> int \<Rightarrow> 'st
     \<Rightarrow> (row list \<times> py_error option) \<times> 'st" where
  "run_generator body 0 i st = (([], None), st)"
| "run_generator body (Suc n) i st =
     (case body i st of
        Inl e \<Rightarrow> (([], Some e), st)
      | Inr (r, st') \<Rightarrow>
          (case run_generator body n (i + 1) st' of
             ((rs, err), st'') \<Rightarrow> ((r # rs, err), st'')))"

text \<open>What a finished run of a producer yielded, and the exception that ended it, if any.\<close>

definition rows_of :: "('r list \<times> py_error option) \<times> 'st \<Rightarrow> 'r list" where
  "rows_of g = fst (fst g)"

definition raised_of :: "('r list \<times> py_error option) \<times> 'st \<Rightarrow> py_error option" where
  "raised_of g = snd (fst g)"

text \<open>The surrogate key of a row is its first field.\<close>

definition surrogate_keys :: "row list \<Rightarrow> pyval list" where
  "surrogate_keys rows = map (\<lambda>r. r ! 0) rows"

definition categories :: "(string \<times> string list \<times> string list) list" where
  "categories =
     [(''Electronics'', [''Phones'', ''Laptops'', ''Headphones'', ''Monitors'', ''Cameras''],
         [''Acme'', ''Zebra'', ''Lux'', ''Nova'', ''Kite'']),
      (''Home'', [''Kitchen'', ''Bedding'', ''Furniture'', ''Decor''],
         [''Homely'', ''Casa'', ''Nido'', ''Oak&Co'']),
      (''Outdoors'', [''Camping'', ''Cycling'', ''Hiking'', ''Fishing''],
         [''Trail'', ''Peak'', ''Rivera'']),
      (''Beauty'', [''Skincare'', ''Haircare'', ''Fragrance''], [''Aura'', ''Bloom'', ''Velvet'']),
      (''Toys'', [''Blocks'', ''RC'', ''Puzzles'', ''Plush''], [''PlayCo'', ''Kiddo'', ''FunLab''])]"

definition product_row ::
  "'s random_source \<Rightarrow> 'f faker \<Rightarrow> int \<Rightarrow> 's \<times> 'f \<Rightarrow> py_error + (row \<times> ('s \<times> 'f))" where
  "product_row R F pid st =
     (case st of (s, f) \<Rightarrow>
      py_bind (py_choice R categories s) (\<lambda>((cat, subs, brands), s1).
      py_bind (py_choice R subs s1) (\<lambda>(sub, s2).
      py_bind (py_choice R brands s2) (\<lambda>(brand, s3).
        case rs_uniform R 5 900 s3 of (base, s4) \<Rightarrow>
        let price = py_round base 2 in
        case rs_uniform R (1/2) (85/100) s4 of (u, s5) \<Rightarrow>
        let cost = py_round (binary64 (price * u)) 2 in
        case fk_date_between F ''-5y'' ''today'' f of (created, f1) \<Rightarrow>
        case rs_random R s5 of (r, s6) \<Rightarrow>
        let is_active = (if 15/100 < r then 1 else 0) in
        Inr ([PInt pid, PStr cat, PStr sub, PStr brand, PFloat price, PFloat cost,
              PStr (isoformat created), PInt is_active], (s6, f1))))))"

definition gen_products ::
  "'s random_source \<Rightarrow> 'f faker \<Rightarrow> int \<Rightarrow> 's \<times> 'f
     \<Rightarrow> (row list \<times> py_error option) \<times> ('s \<times> 'f)" where
  "gen_products R F n_products st = run_generator (product_row R F) (nat n_products) 1 st"

definition sources :: "string list" where
  "sources = [''seo'', ''sem'', ''email'', ''social'', ''direct'', ''referral'', ''marketplace'']"

definition countries :: "string list" where
  "countries = [''UA'', ''PL'', ''DE'', ''FR'', ''GB'', ''US'', ''CA'', ''ES'', ''IT'', ''NL'',
     ''SE'', ''NO'']"

definition customer_email :: "string \<Rightarrow> string \<Rightarrow> int \<Rightarrow> string" where
  "customer_email first lastn cid =
     py_lower (first @ ''.'' @ lastn @ ''.'' @ py_str_int cid @ ''@example.com'')"

definition customer_row ::
  "'s random_source \<Rightarrow> 'f faker \<Rightarrow> int \<Rightarrow> 's \<times> 'f \<Rightarrow> py_error + (row \<times> ('s \<times> 'f))" where
  "customer_row R F cid st =
     (case st of (s, f) \<Rightarrow>
      case fk_first_name F f of (first, f1) \<Rightarrow>
      case fk_last_name F f1 of (lastn, f2) \<Rightarrow>
      let email = customer_email first lastn cid in
      case fk_date_between F ''-3y'' ''today'' f2 of (signup, f3) \<Rightarrow>
      py_bind (py_choice R countries s) (\<lambda>(country, s1).
        case fk_city F f3 of (city, f4) \<Rightarrow>
        case rs_random R s1 of (r, s2) \<Rightarrow>
        let mkt = (if r < 35/100 then 1 else 0) in
        py_bind (py_choice R sources s2) (\<lambda>(source, s3).
          Inr ([PInt cid, PStr first, PStr lastn, PStr email, PStr (isoformat signup),
                PStr country, PStr city, PInt mkt, PStr source], (s3, f4)))))"

definition gen_customers ::
  "'s random_source \<Rightarrow> 'f faker \<Rightarrow> int \<Rightarrow> 's \<times> 'f
     \<Rightarrow> (row list \<times> py_error option) \<times> ('s \<times> 'f)" where
  "gen_customers R F n_customers st = run_generator (customer_row R F) (nat n_customers) 1 st"

text \<open>\<open>now\<close> is the reading of \<^verbatim>\<open>datetime.utcnow()\<close>.\<close>

definition daterange :: "int \<Rightarrow> int \<Rightarrow> int \<Rightarrow> int \<times> int" where
  "daterange start_days_ago end_days_ago now =
     (let start = now - timedelta_days start_days_ago;
          end = now - timedelta_days end_days_ago
      in (start, end))"

definition rand_datetime :: "'s random_source \<Rightarrow> int \<Rightarrow> int \<Rightarrow> 's \<Rightarrow> py_error + (int \<times> 's)" where
  "rand_datetime R start end s =
     (let delta = end - start in
      py_bind (py_randint R 0 (py_int (total_seconds delta)) s) (\<lambda>(seconds, s').
        Inr (start + timedelta_seconds seconds, s')))"

definition statuses :: "string list" where
  "statuses = [''paid'', ''paid'', ''paid'', ''shipped'', ''shipped'', ''cancelled'', ''refunded'']"

definition pay_methods :: "string list" where
  "pay_methods = [''card'', ''card'', ''card'', ''paypal'', ''cod'', ''applepay'', ''googlepay'']"

definition currencies :: "string list" where
  "currencies = [''USD'', ''EUR'', ''PLN'', ''GBP'']"

definition order_row ::
  "'s random_source \<Rightarrow> int \<Rightarrow> int \<Rightarrow> int \<Rightarrow> int \<Rightarrow> 's \<Rightarrow> py_error + (row \<times> 's)" where
  "order_row R n_customers start end oid s =
     py_bind (py_randint R 1 n_customers s) (\<lambda>(cust, s1).
     py_bind (rand_datetime R start end s1) (\<lambda>(dt, s2).
     py_bind (py_choice R statuses s2) (\<lambda>(status, s3).
     py_bind (py_choice R currencies s3) (\<lambda>(curr, s4).
     py_bind (py_choice R pay_methods s4) (\<lambda>(pay, s5).
     py_bind (py_choice R countries s5) (\<lambda>(ship, s6).
       case rs_random R s6 of (r, s7) \<Rightarrow>
       case (if r < 25/100
             then case rs_gauss R 3 7 s7 of (g, s8) \<Rightarrow> (py_round (max 0 g) 2, s8)
             else (0, s7)) of (discount, s8) \<Rightarrow>
       case rs_gauss R 80 70 s8 of (g, s9) \<Rightarrow>
       let total = py_round (binary64 (\<bar>g\<bar> + (if status \<in> {''shipped'', ''paid''} then 5 else 0))) 2
       in Inr ([PInt oid, PInt cust, PStr (strftime dt), PStr status, PStr curr, PStr pay,
                PStr ship, PFloat discount, PFloat total], s9)))))))"

definition gen_orders ::
  "'s random_source \<Rightarrow> 'f faker \<Rightarrow> int \<Rightarrow> int \<Rightarrow> int \<Rightarrow> 's
     \<Rightarrow> (row list \<times> py_error option) \<times> 's" where
  "gen_orders R F n_orders n_customers now s =
     (case daterange 730 0 now of (start, end) \<Rightarrow>
        run_generator (order_row R n_customers start end) (nat n_orders) 1 s)"

definition items_per_order :: "'s random_source \<Rightarrow> 's \<Rightarrow> int \<times> 's" where
  "items_per_order R s =
     (case rs_random R s of (r, s') \<Rightarrow>
        (if r < 40/100 then 1
         else if r < 70/100 then 2
         else if r < 88/100 then 3
         else if r < 95/100 then 4
         else if r < 985/1000 then 5
         else 6, s'))"

definition item_row ::
  "'s random_source \<Rightarrow> int \<Rightarrow> int \<Rightarrow> int \<Rightarrow> 's \<Rightarrow> py_error + (row \<times> 's)" where
  "item_row R n_products oid item_id s =
     py_bind (py_randint R 1 n_products s) (\<lambda>(pid, s1).
       case rs_random R s1 of (r, s2) \<Rightarrow>
       py_bind (if r < 7/10 then Inr (1, s2) else py_randint R 2 5 s2) (\<lambda>(qty, s3).
         case rs_gauss R 60 50 s3 of (g, s4) \<Rightarrow>
         let unit = py_round (max 1 g) 2;
             line_total = py_round (binary64 (unit * of_int qty)) 2
         in Inr ([PInt item_id, PInt oid, PInt pid, PInt qty, PFloat unit, PFloat line_total],
                 s4)))"

text \<open>The inner loop \<^verbatim>\<open>for _ in range(k)\<close> of one order; it returns the next item id.\<close>

fun items_of_order ::
  "'s random_source \<Rightarrow> int \<Rightarrow> int \<Rightarrow> nat \<Rightarrow> int \<Rightarrow> 's
     \<Rightarrow> (row list \<times> py_error option) \<times> (int \<times> 's)" where
  "items_of_order R n_products oid 0 item_id s = (([], None), (item_id, s))"
| "items_of_order R n_products oid (Suc k) item_id s =
     (case item_row R n_products oid item_id s of
        Inl e \<Rightarrow> (([], Some e), (item_id, s))
      | Inr (r, s') \<Rightarrow>
          (case items_of_order R n_products oid k (item_id + 1) s' of
             ((rs, err), st) \<Rightarrow> ((r # rs, err), st)))"

text \<open>The outer loop \<^verbatim>\<open>for oid in range(1, n_orders+1)\<close>, with \<open>n\<close> orders left.\<close>

fun order_items_loop ::
  "'s random_source \<Rightarrow> int \<Rightarrow> nat \<Rightarrow> int \<Rightarrow> int \<Rightarrow> 's
     \<Rightarrow> (row list \<times> py_error option) \<times> 's" where
  "order_items_loop R n_products 0 oid item_id s = (([], None), s)"
| "order_items_loop R n_products (Suc n) oid item_id s =
     (case items_per_order R s of (k, s1) \<Rightarrow>
      case items_of_order R n_products oid (nat k) item_id s1 of
        ((rows, Some e), (item_id', s2)) \<Rightarrow> ((rows, Some e), s2)
      | ((rows, None), (item_id', s2)) \<Rightarrow>
          (case order_items_loop R n_products n (oid + 1) item_id' s2 of
             ((rows', err), s3) \<Rightarrow> ((rows @ rows', err), s3)))"

definition gen_order_items ::
  "'s random_source \<Rightarrow> int \<Rightarrow> int \<Rightarrow> rat \<Rightarrow> 's \<Rightarrow> (row list \<times> py_error option) \<times> 's" where
  "gen_order_items R n_orders n_products avg_items s =
     order_items_loop R n_products (nat n_orders) 1 1 s"



section \<open>The sink writer\<close>

text \<open>
  \<^verbatim>\<open>csv.writer\<close> with its defaults: fields joined by commas, a field holding a comma,
  a double quote, a carriage return or a line feed is enclosed in double quotes with its
  quotes doubled, a row that is one empty field is written as two quotes, and every row
  ends with carriage return and line feed.
\<close>

definition needs_quote :: "string \<Rightarrow> bool" where
  "needs_quote s =
     list_ex (\<lambda>c. c = CHR '','' \<or> c = CHR 0x22 \<or> c = CHR 0x0D \<or> c = CHR 0x0A) s"

definition csv_field :: "string \<Rightarrow> string" where
  "csv_field s =
     (if needs_quote s
      then CHR 0x22 # concat (map (\<lambda>c. if c = CHR 0x22 then [c, c] else [c]) s) @ [CHR 0x22]
      else s)"

fun join_fields :: "string list \<Rightarrow> string" where
  "join_fields [] = []"
| "join_fields [f] = f"
| "join_fields (f # g # fs) = f @ CHR '','' # join_fields (g # fs)"

definition csv_writerow :: "row \<Rightarrow> string" where
  "csv_writerow r =
     (let fs = map (\<lambda>v. csv_field (py_str v)) r
      in (if fs = [[]] then [CHR 0x22, CHR 0x22] else join_fields fs) @ [CHR 0x0D, CHR 0x0A])"

text \<open>The two \<^verbatim>\<open>print\<close> calls of \<^verbatim>\<open>write_csv\<close>, with the count they show.\<close>

datatype progress = Wrote int | Done int

text \<open>
  The loop of \<^verbatim>\<open>write_csv\<close> over the rows, from \<open>written\<close> rows on:
  \<^verbatim>\<open>written % chunk\<close> raises \<^verbatim>\<open>ZeroDivisionError\<close> when \<open>chunk\<close> is 0, after the
  row has been written.
\<close>

fun write_rows ::
  "int \<Rightarrow> int \<Rightarrow> row list \<Rightarrow> (string \<times> progress list) \<times> (py_error + int)" where
  "write_rows chunk written [] = (([], []), Inr written)"
| "write_rows chunk written (r # rs) =
     (let line = csv_writerow r; written' = written + 1
      in if chunk = 0 then ((line, []), Inl ZeroDivisionError)
         else case write_rows chunk written' rs of
                ((text, printed), res) \<Rightarrow>
                  ((line @ text, (if written' mod chunk = 0 then [Wrote written'] else []) @ printed),
                   res))"

text \<open>
  \<^verbatim>\<open>write_csv(path, header, row_iter, chunk)\<close>: the text left in the file, what was
  printed, and the value returned or the exception raised. \<open>row_iter\<close> is a generator run to
  its end: its rows, and the exception that ended it, if any. Failures of the file system
  (\<^verbatim>\<open>os.makedirs\<close>, \<^verbatim>\<open>open\<close>) are not modelled.
\<close>

definition write_csv ::
  "string \<Rightarrow> row \<Rightarrow> row list \<times> py_error option \<Rightarrow> int
     \<Rightarrow> string \<times> progress list \<times> (py_error + int)" where
  "write_csv path header row_iter chunk =
     (case row_iter of (rows, raised) \<Rightarrow>
      case write_rows chunk 0 rows of
        ((body, printed), Inl e) \<Rightarrow> (csv_writerow header @ body, printed, Inl e)
      | ((body, printed), Inr written) \<Rightarrow>
          (case raised of
             Some e \<Rightarrow> (csv_writerow header @ body, printed, Inl e)
           | None \<Rightarrow> (csv_writerow header @ body, printed @ [Done written], Inr written)))"

text \<open>
  The lines of a text, each ended by a line feed; a last line without one counts when
  it is not empty. The number of non-header lines of a file is the number of lines after
  the first.
\<close>

fun lines_from :: "string \<Rightarrow> string \<Rightarrow> string list" where
  "lines_from cur [] = (if cur = [] then [] else [cur])"
| "lines_from cur (c # cs) =
     (if c = CHR 0x0A then cur # lines_from [] cs else lines_from (cur @ [c]) cs)"

definition split_lines :: "string \<Rightarrow> string list" where
  "split_lines text = lines_from [] text"

definition data_lines :: "string \<Rightarrow> string list" where
  "data_lines text = tl (split_lines text)"

section \<open>The orchestrator\<close>

record args =
  host :: string
  port :: int
  user :: string
  password :: string
  database :: string
  outdir :: string
  customers :: int
  products :: int
  orders :: int
  items_avg :: rat

definition default_args :: args where
  "default_args =
     \<lparr>host = ''127.0.0.1'', port = 3306, user = ''root'', password = [],
      database = ''ecommerce_synth'', outdir = ''data'', customers = 1200000,
      products = 1200000, orders = 2000000, items_avg = 3\<rparr>"

text \<open>
  The world a run changes: the files by path, and the rows of each table of the database
  (by database and table name). The database server is taken to accept every statement.
\<close>

record world =
  files :: "string \<Rightarrow> string option"
  tables :: "string \<times> string \<Rightarrow> string list"

definition empty_world :: world where
  "empty_world = \<lparr>files = (\<lambda>_. None), tables = (\<lambda>_. [])\<rparr>"

text \<open>\<^verbatim>\<open>os.path.join(dir, name)\<close> for a relative \<open>name\<close>.\<close>

definition path_join :: "string \<Rightarrow> string \<Rightarrow> string" where
  "path_join dir name =
     (if dir = [] then name
      else if last dir = CHR ''/'' then dir @ name
      else dir @ CHR ''/'' # name)"

text \<open>
  \<^verbatim>\<open>load_csv\<close>: \<^verbatim>\<open>LOAD DATA LOCAL INFILE ... LINES TERMINATED BY '\n' IGNORE 1 LINES\<close>
  appends the lines of the file after the first to the table.
\<close>

definition load_csv :: "string \<Rightarrow> string \<Rightarrow> string \<Rightarrow> world \<Rightarrow> world" where
  "load_csv db table path w =
     (case files w path of
        None \<Rightarrow> w
      | Some text \<Rightarrow> w\<lparr>tables := (tables w)((db, table) := tables w (db, table) @ data_lines text)\<rparr>)"

text \<open>
  One stage of \<^verbatim>\<open>main\<close>: \<^verbatim>\<open>write_csv\<close> of a producer (with the default chunk), then
  \<^verbatim>\<open>load_csv\<close> of the file written. An exception leaves the file as far as it was
  written and skips the load.
\<close>

definition write_and_load ::
  "string \<Rightarrow> string \<Rightarrow> string \<Rightarrow> row \<Rightarrow> row list \<times> py_error option \<Rightarrow> world
     \<Rightarrow> world \<times> (py_error + int)" where
  "write_and_load db table path header row_iter w =
     (case write_csv path header row_iter 100000 of
        (text, printed, res) \<Rightarrow>
          (let w' = w\<lparr>files := (files w)(path := Some text)\<rparr>
           in case res of
                Inl e \<Rightarrow> (w', Inl e)
              | Inr n \<Rightarrow> (load_csv db table path w', Inr n)))"

definition products_header :: row where
  "products_header = map PStr [''product_id'', ''category'', ''subcategory'', ''brand'',
     ''price'', ''cost'', ''created_at'', ''is_active'']"

definition customers_header :: row where
  "customers_header = map PStr [''customer_id'', ''first_name'', ''last_name'', ''email'',
     ''signup_date'', ''country'', ''city'', ''marketing_opt_in'', ''acquisition_source'']"

definition orders_header :: row where
  "orders_header = map PStr [''order_id'', ''customer_id'', ''order_date'', ''status'',
     ''currency'', ''payment_method'', ''shipping_country'', ''discount'', ''total_amount'']"

definition order_items_header :: row where
  "order_items_header = map PStr [''order_item_id'', ''order_id'', ''product_id'',
     ''quantity'', ''unit_price'', ''line_total'']"

text \<open>
  \<^verbatim>\<open>main\<close>, from the seeding on. It returns the world it leaves and either the
  exception that ended it or the four row counts it prints. \<open>now\<close> is the clock reading
  of \<^verbatim>\<open>daterange\<close>, made when the order producer is created.
\<close>

definition main ::
  "args \<Rightarrow> 's random_source \<Rightarrow> 'f faker \<Rightarrow> int \<Rightarrow> world
     \<Rightarrow> world \<times> (py_error + (int \<times> int \<times> int \<times> int))" where
  "main a R F now w0 =
     (let f0 = fk_seed_instance F 42;
          s0 = rs_seed R 42;
          db = database a
      in
      case gen_products R F (products a) (s0, f0) of (p_iter, (s1, f1)) \<Rightarrow>
      case write_and_load db ''products'' (path_join (outdir a) ''products.csv'')
             products_header p_iter w0 of
        (w1, Inl e) \<Rightarrow> (w1, Inl e)
      | (w1, Inr p_rows) \<Rightarrow>
      case gen_customers R F (customers a) (s1, f1) of (c_iter, (s2, f2)) \<Rightarrow>
      case write_and_load db ''customers'' (path_join (outdir a) ''customers.csv'')
             customers_header c_iter w1 of
        (w2, Inl e) \<Rightarrow> (w2, Inl e)
      | (w2, Inr c_rows) \<Rightarrow>
      case gen_orders R F (orders a) (customers a) now s2 of (o_iter, s3) \<Rightarrow>
      case write_and_load db ''orders'' (path_join (outdir a) ''orders.csv'')
             orders_header o_iter w2 of
        (w3, Inl e) \<Rightarrow> (w3, Inl e)
      | (w3, Inr o_rows) \<Rightarrow>
      case gen_order_items R (orders a) (products a) (items_avg a) s3 of (i_iter, s4) \<Rightarrow>
      case write_and_load db ''order_items'' (path_join (outdir a) ''order_items.csv'')
             order_items_header i_iter w3 of
        (w4, Inl e) \<Rightarrow> (w4, Inl e)
      | (w4, Inr i_rows) \<Rightarrow> (w4, Inr (p_rows, c_rows, o_rows, i_rows)))"

section \<open>A small random source and Faker instance\<close>

text \<open>
  A deterministic source whose state is a counter; it meets \<open>rng_ok\<close> and serves to run
  the producers on concrete inputs.
\<close>

definition counter_source :: "nat random_source" where
  "counter_source = RandomSource
     (\<lambda>seed. nat seed)
     (\<lambda>s. (of_nat ((7 * s + 3) mod 16) / 16, s + 1))
     (\<lambda>n s. (s mod n, s + 1))
     (\<lambda>a b s. (a + int s mod (b - a + 1), s + 1))
     (\<lambda>a b s. (a + (b - a) * (of_nat (s mod 4) / 4), s + 1))
     (\<lambda>mu sigma s. (mu + sigma * (of_nat (s mod 5) - 2), s + 1))"

definition counter_faker :: "int \<Rightarrow> nat faker" where
  "counter_faker today = Faker
     (\<lambda>seed. nat seed)
     (\<lambda>f. ([''Ann'', ''Bob'', ''Eve''] ! (f mod 3), f + 1))
     (\<lambda>f. ([''Lee'', ''Kim''] ! (f mod 2), f + 1))
     (\<lambda>f. ([''Kyiv'', ''Lviv'', ''Oslo''] ! (f mod 3), f + 1))
     (\<lambda>start_date end_date f. (today - int (f mod 1000), f + 1))"

lemma rhe_error: "\<bar>of_int (round_half_even x) - x\<bar> \<le> 1/2"
  unfolding round_half_even_def Let_def by (auto simp: abs_if) linarith+

lemma rhe_of_int [simp]: "round_half_even (of_int n) = n"
  unfolding round_half_even_def Let_def by simp

lemma rhe_mono: "x \<le> y \<Longrightarrow> round_half_even x \<le> round_half_even y"
proof -
  assume xy: "x \<le> y"
  have fl: "\<lfloor>x\<rfloor> \<le> \<lfloor>y\<rfloor>" using xy by (rule floor_mono)
  show ?thesis
  proof (cases "\<lfloor>x\<rfloor> = \<lfloor>y\<rfloor>")
    case True
    then show ?thesis using xy unfolding round_half_even_def Let_def by auto
  next
    case False
    then have "\<lfloor>x\<rfloor> + 1 \<le> \<lfloor>y\<rfloor>" using fl by simp
    moreover have "round_half_even x \<le> \<lfloor>x\<rfloor> + 1" unfolding round_half_even_def Let_def by auto
    moreover have "\<lfloor>y\<rfloor> \<le> round_half_even y" unfolding round_half_even_def Let_def by auto
    ultimately show ?thesis by linarith
  qed
qed


lemma bitlen_bounds_rat:
  assumes "0 < p"
  shows "(2::rat) powi (bitlen p - 1) \<le> of_int p" "of_int p < (2::rat) powi (bitlen p)"
proof -
  have b: "1 \<le> bitlen p" using assms bitlen_eq_zero_iff[of p] bitlen_nonneg[of p] by linarith
  have "(2::int) ^ nat (bitlen p - 1) \<le> p" "p < 2 ^ nat (bitlen p)"
    using bitlen_bounds[OF assms] by auto
  then have "(of_int (2 ^ nat (bitlen p - 1)) :: rat) \<le> of_int p" "(of_int p :: rat) < of_int (2 ^ nat (bitlen p))"
    by (simp_all only: of_int_le_iff of_int_less_iff)
  then show "(2::rat) powi (bitlen p - 1) \<le> of_int p" "of_int p < (2::rat) powi (bitlen p)"
    using b by (simp_all add: power_int_nonneg_exp)
qed

lemma ilog2_bounds:
  assumes "0 < x"
  shows "2 powi (ilog2 x) \<le> x" "x < 2 powi (ilog2 x + 1)"
proof -
  obtain p q where pq: "quotient_of x = (p, q)" by (cases "quotient_of x")
  have q: "0 < q" using quotient_of_denom_pos[OF pq] .
  have x: "x = of_int p / of_int q" using quotient_of_div[OF pq] .
  have p: "0 < p" using assms q x by (simp add: zero_less_divide_iff)
  let ?e = "bitlen p - bitlen q"
  note bp = bitlen_bounds_rat[OF p] and bq = bitlen_bounds_rat[OF q]
  have qpos: "(0::rat) < of_int q" using q by simp
  have A: "x < 2 powi (?e + 1)"
  proof -
    have "of_int p * (2::rat) powi (bitlen q - 1) < 2 powi (bitlen p) * of_int q"
      using bp(2) bq(1) p q
      by (intro mult_less_le_imp_less) auto
    then have "of_int p < 2 powi (bitlen p) * of_int q / (2::rat) powi (bitlen q - 1)"
      by (simp add: pos_less_divide_eq)
    then have "of_int p / of_int q < 2 powi (bitlen p) / (2::rat) powi (bitlen q - 1)"
      using qpos by (simp add: pos_divide_less_eq)
    also have "\<dots> = 2 powi (?e + 1)"
      by (simp flip: power_int_diff add: algebra_simps)
    finally show ?thesis using x by simp
  qed
  have B: "2 powi (?e - 1) \<le> x"
  proof -
    have "2 powi (bitlen p - 1) * of_int q \<le> of_int p * (2::rat) powi (bitlen q)"
      using bp(1) bq(2) p q
      by (intro mult_mono) auto
    then have "2 powi (bitlen p - 1) * of_int q / (2::rat) powi (bitlen q) \<le> of_int p"
      by (simp add: pos_divide_le_eq)
    then have "2 powi (bitlen p - 1) / (2::rat) powi (bitlen q) \<le> of_int p / of_int q"
      using qpos by (simp add: pos_le_divide_eq)
    moreover have "2 powi (bitlen p - 1) / (2::rat) powi (bitlen q) = 2 powi (?e - 1)"
      by (simp flip: power_int_diff add: algebra_simps)
    ultimately show ?thesis using x by simp
  qed
  have il: "ilog2 x = (if 2 powi ?e \<le> x then ?e else ?e - 1)"
    by (simp add: ilog2_def pq Let_def)
  show "2 powi (ilog2 x) \<le> x" using B il by auto
  show "x < 2 powi (ilog2 x + 1)" using A il by (auto simp: not_le)
qed

lemma pow2_exp_less:
  assumes "(2::rat) powi a \<le> x" "x < 2 powi (b + 1)"
  shows "a \<le> b"
proof (rule ccontr)
  assume "\<not> a \<le> b"
  then have "b + 1 \<le> a" by simp
  then have "(2::rat) powi (b + 1) \<le> 2 powi a" by (intro power_int_increasing) auto
  with assms show False by linarith
qed

lemma ilog2_unique:
  assumes "2 powi a \<le> x" "x < 2 powi (a + 1)"
  shows "ilog2 x = a"
proof -
  have "(0::rat) < 2 powi a" by simp
  then have x: "0 < x" using assms(1) by linarith
  note b = ilog2_bounds[OF x]
  have "a \<le> ilog2 x" using pow2_exp_less[OF assms(1) b(2)] .
  moreover have "ilog2 x \<le> a" using pow2_exp_less[OF b(1) assms(2)] .
  ultimately show ?thesis by simp
qed


lemma binary64_scaled:
  assumes "x \<noteq> 0"
  shows "binary64 x = of_int (round_half_even (x / 2 powi (ilog2 \<bar>x\<bar> - 52))) * 2 powi (ilog2 \<bar>x\<bar> - 52)"
  using assms by (simp add: binary64_def Let_def)

lemma scaled_bounds:
  assumes "0 < x"
  shows "2 ^ 52 \<le> x / 2 powi (ilog2 x - 52)" "x / 2 powi (ilog2 x - 52) < 2 ^ 53"
proof -
  note b = ilog2_bounds[OF assms]
  have e: "(2::rat) powi (ilog2 x) = 2 ^ 52 * 2 powi (ilog2 x - 52)"
    "(2::rat) powi (ilog2 x + 1) = 2 ^ 53 * 2 powi (ilog2 x - 52)"
    by (simp_all add: power_int_diff power_int_add)
  show "2 ^ 52 \<le> x / 2 powi (ilog2 x - 52)"
    using b(1) unfolding e(1) by (simp add: pos_le_divide_eq)
  show "x / 2 powi (ilog2 x - 52) < 2 ^ 53"
    using b(2) unfolding e(2) by (simp add: pos_divide_less_eq)
qed

lemma rhe_scaled_bounds:
  assumes "0 < x"
  shows "2 ^ 52 \<le> round_half_even (x / 2 powi (ilog2 x - 52))"
    "round_half_even (x / 2 powi (ilog2 x - 52)) \<le> 2 ^ 53"
proof -
  note b = scaled_bounds[OF assms]
  have "round_half_even (of_int (2 ^ 52)) \<le> round_half_even (x / 2 powi (ilog2 x - 52))"
    by (rule rhe_mono) (use b(1) in simp)
  then show "2 ^ 52 \<le> round_half_even (x / 2 powi (ilog2 x - 52))"
    unfolding rhe_of_int .
  have "round_half_even (x / 2 powi (ilog2 x - 52)) \<le> round_half_even (of_int (2 ^ 53))"
    by (rule rhe_mono) (use b(2) in simp)
  then show "round_half_even (x / 2 powi (ilog2 x - 52)) \<le> 2 ^ 53"
    unfolding rhe_of_int .
qed

lemma binary64_pos_bounds:
  assumes "0 < x"
  shows "2 powi (ilog2 x) \<le> binary64 x" "binary64 x \<le> 2 powi (ilog2 x + 1)"
proof -
  let ?e = "ilog2 x - 52"
  let ?m = "round_half_even (x / 2 powi ?e)"
  have d: "binary64 x = of_int ?m * 2 powi ?e"
    using binary64_scaled[of x] assms by simp
  note b = rhe_scaled_bounds[OF assms]
  have m1: "(2::rat) ^ 52 \<le> of_int ?m" using b(1) by (metis of_int_le_iff of_int_numeral of_int_power)
  have m2: "(of_int ?m :: rat) \<le> 2 ^ 53" using b(2) by (metis of_int_le_iff of_int_numeral of_int_power)
  have e: "(2::rat) powi (ilog2 x) = 2 ^ 52 * 2 powi ?e"
    "(2::rat) powi (ilog2 x + 1) = 2 ^ 53 * 2 powi ?e"
    by (simp_all add: power_int_diff power_int_add)
  show "2 powi (ilog2 x) \<le> binary64 x"
    unfolding d e(1) using m1 by (intro mult_right_mono) auto
  show "binary64 x \<le> 2 powi (ilog2 x + 1)"
    unfolding d e(2) using m2 by (intro mult_right_mono) auto
qed

lemma binary64_nonneg: "0 \<le> x \<Longrightarrow> 0 \<le> binary64 x"
proof (cases "x = 0")
  case True then show ?thesis by (simp add: binary64_def)
next
  case False
  assume "0 \<le> x"
  with False have "0 < x" by simp
  from binary64_pos_bounds(1)[OF this] have "(2::rat) powi (ilog2 x) \<le> binary64 x" .
  moreover have "(0::rat) < 2 powi (ilog2 x)" by simp
  ultimately show ?thesis by linarith
qed

lemma binary64_mono:
  assumes "0 \<le> x" "x \<le> y"
  shows "binary64 x \<le> binary64 y"
proof (cases "x = 0")
  case True
  then show ?thesis using assms binary64_nonneg[of y] by (simp add: binary64_def)
next
  case False
  then have x: "0 < x" and y: "0 < y" using assms by auto
  note bx = ilog2_bounds[OF x] and by2 = ilog2_bounds[OF y]
  have le: "ilog2 x \<le> ilog2 y"
    by (rule pow2_exp_less[of _ x]) (use bx(1) by2(2) assms(2) in auto)
  show ?thesis
  proof (cases "ilog2 x = ilog2 y")
    case True
    have "x / 2 powi (ilog2 y - 52) \<le> y / 2 powi (ilog2 y - 52)"
      using assms(2) by (simp add: divide_right_mono)
    then have "round_half_even (x / 2 powi (ilog2 y - 52)) \<le> round_half_even (y / 2 powi (ilog2 y - 52))"
      by (rule rhe_mono)
    then have "(of_int (round_half_even (x / 2 powi (ilog2 y - 52))) :: rat) * 2 powi (ilog2 y - 52)
        \<le> of_int (round_half_even (y / 2 powi (ilog2 y - 52))) * 2 powi (ilog2 y - 52)"
      by (intro mult_right_mono) auto
    then show ?thesis
      using binary64_scaled[of x] binary64_scaled[of y] x y True by simp
  next
    case False
    then have "ilog2 x + 1 \<le> ilog2 y" using le by simp
    then have "(2::rat) powi (ilog2 x + 1) \<le> 2 powi (ilog2 y)"
      by (intro power_int_increasing) auto
    with binary64_pos_bounds(2)[OF x] binary64_pos_bounds(1)[OF y]
    show ?thesis by linarith
  qed
qed

lemma binary64_error:
  "\<bar>binary64 x - x\<bar> \<le> \<bar>x\<bar> / 2 ^ 53"
proof (cases "x = 0")
  case True then show ?thesis by (simp add: binary64_def)
next
  case False
  let ?e = "ilog2 \<bar>x\<bar> - 52"
  let ?m = "round_half_even (x / 2 powi ?e)"
  have ax: "0 < \<bar>x\<bar>" using False by simp
  have d: "binary64 x = of_int ?m * 2 powi ?e" using binary64_scaled[OF False] .
  have "binary64 x - x = (of_int ?m - x / 2 powi ?e) * 2 powi ?e"
    unfolding d by (simp add: algebra_simps)
  then have "\<bar>binary64 x - x\<bar> = \<bar>of_int ?m - x / 2 powi ?e\<bar> * 2 powi ?e"
    by (simp add: abs_mult)
  also have "\<dots> \<le> (1/2) * 2 powi ?e"
    by (intro mult_right_mono rhe_error) auto
  also have "\<dots> = 2 powi (ilog2 \<bar>x\<bar>) / 2 ^ 53"
    by (simp add: power_int_diff)
  also have "\<dots> \<le> \<bar>x\<bar> / 2 ^ 53"
    using ilog2_bounds(1)[OF ax] by (simp add: divide_right_mono)
  finally show ?thesis .
qed

lemma binary64_of_scaled_int:
  assumes "x / 2 powi (ilog2 \<bar>x\<bar> - 52) = of_int n"
  shows "binary64 x = x"
proof (cases "x = 0")
  case True then show ?thesis by (simp add: binary64_def)
next
  case False
  have "binary64 x = of_int n * 2 powi (ilog2 \<bar>x\<bar> - 52)"
    using binary64_scaled[OF False] assms by simp
  also have "\<dots> = x" using assms[symmetric] by simp
  finally show ?thesis .
qed

lemma binary64_exact_lt:
  assumes "\<bar>m\<bar> < 2 ^ 53"
  shows "binary64 (of_int m * 2 powi k) = of_int m * 2 powi k"
proof (cases "m = 0")
  case True then show ?thesis by (simp add: binary64_def)
next
  case False
  let ?x = "(of_int m :: rat) * 2 powi k"
  have ax: "\<bar>?x\<bar> = of_int \<bar>m\<bar> * 2 powi k" by (simp add: abs_mult)
  have xpos: "0 < \<bar>?x\<bar>" using False by simp
  have "(of_int \<bar>m\<bar> :: rat) < of_int (2 ^ 53)" using assms by (simp only: of_int_less_iff)
  then have "(of_int \<bar>m\<bar> :: rat) < 2 ^ 53" by simp
  then have "\<bar>?x\<bar> < 2 ^ 53 * 2 powi k" unfolding ax by (intro mult_strict_right_mono) auto
  then have "\<bar>?x\<bar> < 2 powi (52 + k + 1)" by (simp add: power_int_add)
  from pow2_exp_less[OF ilog2_bounds(1)[OF xpos] this]
  have le: "ilog2 \<bar>?x\<bar> - 52 \<le> k" by simp
  define j where "j = nat (k - (ilog2 \<bar>?x\<bar> - 52))"
  have k: "k = (ilog2 \<bar>?x\<bar> - 52) + int j" using le by (simp add: j_def)
  have "?x / 2 powi (ilog2 \<bar>?x\<bar> - 52) = of_int m * (2 powi k / 2 powi (ilog2 \<bar>?x\<bar> - 52))"
    by simp
  also have "2 powi k / (2::rat) powi (ilog2 \<bar>?x\<bar> - 52) = 2 ^ j"
    by (subst k) (simp add: power_int_add)
  also have "of_int m * (2::rat) ^ j = of_int (m * 2 ^ j)" by simp
  finally show ?thesis by (rule binary64_of_scaled_int)
qed

lemma binary64_exact:
  assumes "\<bar>m\<bar> \<le> 2 ^ 53"
  shows "binary64 (of_int m * 2 powi k) = of_int m * 2 powi k"
proof (cases "\<bar>m\<bar> = 2 ^ 53")
  case False
  then have "\<bar>m\<bar> < 2 ^ 53" using assms by simp
  then show ?thesis by (rule binary64_exact_lt)
next
  case True
  then have "m = 2 ^ 52 * 2 \<or> m = - (2 ^ 52) * 2" by (simp add: abs_if split: if_splits)
  then obtain h :: int where h: "m = h * 2" "\<bar>h\<bar> < 2 ^ 53" by auto
  have "(of_int m :: rat) * 2 powi k = of_int h * 2 powi (k + 1)"
    unfolding h(1) by (simp add: power_int_add)
  then show ?thesis using binary64_exact_lt[OF h(2), of "k + 1"] by simp
qed

lemma binary64_idem: "binary64 (binary64 x) = binary64 x"
proof (cases "x = 0")
  case True then show ?thesis by (simp add: binary64_def)
next
  case False
  let ?e = "ilog2 \<bar>x\<bar> - 52"
  let ?m = "round_half_even (x / 2 powi ?e)"
  have ax: "0 < \<bar>x\<bar>" using False by simp
  have d: "binary64 x = of_int ?m * 2 powi ?e" using binary64_scaled[OF False] .
  have "\<bar>x / 2 powi ?e\<bar> = \<bar>x\<bar> / 2 powi ?e"
    by (simp add: abs_divide)
  then have sb: "\<bar>x / 2 powi ?e\<bar> < 2 ^ 53"
    using scaled_bounds(2)[OF ax] by simp
  have "of_int (- (2 ^ 53)) \<le> x / 2 powi ?e"
    using sb by (simp only: abs_less_iff of_int_minus of_int_power of_int_numeral) linarith
  then have "round_half_even (of_int (- (2 ^ 53))) \<le> ?m"
    by (rule rhe_mono)
  moreover have "x / 2 powi ?e \<le> of_int (2 ^ 53)"
    using sb by (simp only: abs_less_iff of_int_minus of_int_power of_int_numeral) linarith
  then have "?m \<le> round_half_even (of_int (2 ^ 53))"
    by (rule rhe_mono)
  ultimately have "\<bar>?m\<bar> \<le> 2 ^ 53" unfolding rhe_of_int by simp
  then show ?thesis unfolding d by (rule binary64_exact)
qed


lemma rhe_nonneg: "0 \<le> x \<Longrightarrow> 0 \<le> round_half_even x"
  using rhe_mono[of 0 x] rhe_of_int[of 0] by simp

lemma rhe_near:
  assumes "\<bar>y - of_int n\<bar> < 1/2"
  shows "round_half_even y = n"
proof -
  have "\<bar>of_int (round_half_even y) - y\<bar> \<le> 1/2" by (rule rhe_error)
  with assms have "\<bar>(of_int (round_half_even y) :: rat) - of_int n\<bar> < 1" by linarith
  then have "\<bar>(of_int (round_half_even y - n) :: rat)\<bar> < of_int 1" by simp
  then have "\<bar>round_half_even y - n\<bar> < 1" by (simp only: of_int_abs [symmetric] of_int_less_iff)
  then show ?thesis by simp
qed

lemma py_round_nonneg: "0 \<le> x \<Longrightarrow> 0 \<le> py_round x k"
  unfolding py_round_def by (intro binary64_nonneg divide_nonneg_nonneg) (simp_all add: rhe_nonneg)

lemma py_round_mono:
  assumes "0 \<le> x" "x \<le> y"
  shows "py_round x k \<le> py_round y k"
proof -
  have "round_half_even (x * 10 ^ k) \<le> round_half_even (y * 10 ^ k)"
    using assms(2) by (intro rhe_mono mult_right_mono) auto
  then have "(of_int (round_half_even (x * 10 ^ k)) :: rat) / 10 ^ k \<le> of_int (round_half_even (y * 10 ^ k)) / 10 ^ k"
    by (intro divide_right_mono) auto
  moreover have "(0::rat) \<le> of_int (round_half_even (x * 10 ^ k)) / 10 ^ k"
    using assms(1) by (intro divide_nonneg_nonneg) (simp_all add: rhe_nonneg)
  ultimately show ?thesis unfolding py_round_def by (intro binary64_mono)
qed

lemma py_round2_cents:
  assumes "0 \<le> n" "n < 2 ^ 52"
  shows "round_half_even (binary64 (of_int n / 100) * 100) = n"
proof (rule rhe_near)
  let ?d = "(of_int n :: rat) / 100"
  have d0: "0 \<le> ?d" using assms(1) by simp
  have "(of_int n :: rat) < of_int (2 ^ 52)" using assms(2) by (simp only: of_int_less_iff)
  then have n52: "(of_int n :: rat) < 2 ^ 52" by simp
  have "\<bar>binary64 ?d - ?d\<bar> \<le> \<bar>?d\<bar> / 2 ^ 53" by (rule binary64_error)
  then have "\<bar>binary64 ?d - ?d\<bar> * 100 \<le> (\<bar>?d\<bar> / 2 ^ 53) * 100"
    by (intro mult_right_mono) auto
  moreover have "\<bar>binary64 ?d - ?d\<bar> * 100 = \<bar>binary64 ?d * 100 - of_int n\<bar>"
  proof -
    have "\<bar>binary64 ?d * 100 - of_int n\<bar> = \<bar>(binary64 ?d - ?d) * 100\<bar>"
      by (simp add: algebra_simps)
    also have "\<dots> = \<bar>binary64 ?d - ?d\<bar> * \<bar>100\<bar>" by (rule abs_mult)
    finally show ?thesis by simp
  qed
  moreover have "(\<bar>?d\<bar> / 2 ^ 53) * 100 = of_int n / 2 ^ 53" using assms(1) by simp
  moreover have "(of_int n :: rat) / 2 ^ 53 < 1 / 2" using n52 by simp
  ultimately show "\<bar>binary64 (of_int n / 100) * 100 - of_int n\<bar> < 1 / 2" by linarith
qed

lemma py_round2_idem:
  assumes "0 \<le> x" "x \<le> 2 ^ 40"
  shows "py_round (py_round x 2) 2 = py_round x 2"
proof -
  let ?n = "round_half_even (x * 100)"
  have n0: "0 \<le> ?n" using assms(1) by (intro rhe_nonneg) simp
  have "?n \<le> round_half_even (of_int (2 ^ 40 * 100))"
    using assms(2) by (intro rhe_mono) simp
  then have "?n \<le> 2 ^ 40 * 100" unfolding rhe_of_int .
  then have n52: "?n < 2 ^ 52" by simp
  have "round_half_even (binary64 (of_int ?n / 100) * 100) = ?n"
    using py_round2_cents[OF n0 n52] .
  then show ?thesis by (simp add: py_round_def)
qed

lemma cost_le_price:
  assumes "0 \<le> base" "base \<le> 2 ^ 40" "0 \<le> u" "u \<le> 1"
  shows "py_round (binary64 (py_round base 2 * u)) 2 \<le> py_round base 2"
proof -
  let ?price = "py_round base 2"
  have p0: "0 \<le> ?price" using assms(1) by (rule py_round_nonneg)
  have pf: "binary64 ?price = ?price" unfolding py_round_def by (rule binary64_idem)
  have "?price * u \<le> ?price * 1" using p0 assms(4) by (intro mult_left_mono) auto
  then have le: "?price * u \<le> ?price" by simp
  have pu0: "0 \<le> ?price * u" using p0 assms(3) by simp
  have "binary64 (?price * u) \<le> binary64 ?price" using pu0 le by (rule binary64_mono)
  then have b: "binary64 (?price * u) \<le> ?price" using pf by simp
  have "py_round (binary64 (?price * u)) 2 \<le> py_round ?price 2"
    using binary64_nonneg[OF pu0] b by (rule py_round_mono)
  also have "py_round ?price 2 = ?price" using assms(1,2) by (rule py_round2_idem)
  finally show ?thesis .
qed

lemma line_total_close:
  assumes "0 \<le> p" "p \<le> 2 ^ 40"
  shows "\<bar>py_round (binary64 p) 2 - p\<bar> \<le> 1 / 100"
proof -
  let ?q = "binary64 p"
  let ?n = "round_half_even (?q * 100)"
  let ?d = "(of_int ?n :: rat) / 100"
  have p40: "p \<le> 1099511627776" using assms(2) by simp
  have e1: "\<bar>?q - p\<bar> \<le> p / 2 ^ 53" using binary64_error[of p] assms(1) by simp
  have "p / 2 ^ 53 \<le> 2 ^ 40 / 2 ^ 53" using assms(2) by (intro divide_right_mono) auto
  then have e1': "\<bar>?q - p\<bar> \<le> 1 / 8192" using e1 by simp
  have q0: "0 \<le> ?q" using assms(1) by (rule binary64_nonneg)
  have "\<bar>of_int ?n - ?q * 100\<bar> \<le> 1 / 2" by (rule rhe_error)
  then have "\<bar>of_int ?n - ?q * 100\<bar> / 100 \<le> (1 / 2) / 100" by (intro divide_right_mono) auto
  moreover have "\<bar>of_int ?n - ?q * 100\<bar> / 100 = \<bar>?d - ?q\<bar>"
  proof -
    have "\<bar>?d - ?q\<bar> = \<bar>(of_int ?n - ?q * 100) / 100\<bar>" by (simp add: field_simps)
    also have "\<dots> = \<bar>of_int ?n - ?q * 100\<bar> / \<bar>100\<bar>" by (rule abs_divide)
    finally show ?thesis by simp
  qed
  ultimately have e2: "\<bar>?d - ?q\<bar> \<le> 1 / 200" by simp
  have n0: "0 \<le> ?n" using q0 by (intro rhe_nonneg) simp
  have d0: "0 \<le> ?d" using n0 by simp
  have dle: "?d \<le> 1099511627777"
    using e2 e1' p40 abs_ge_self[of "?d - ?q"] abs_ge_self[of "?q - p"] by linarith
  have e3: "\<bar>binary64 ?d - ?d\<bar> \<le> ?d / 2 ^ 53" using binary64_error[of ?d] d0 by simp
  have "?d / 2 ^ 53 \<le> 1099511627777 / 2 ^ 53" using dle by (intro divide_right_mono) auto
  then have e3': "\<bar>binary64 ?d - ?d\<bar> \<le> 1 / 4096" using e3 by simp
  have r: "py_round ?q 2 = binary64 ?d" by (simp add: py_round_def)
  have "\<bar>binary64 ?d - p\<bar> \<le> \<bar>binary64 ?d - ?d\<bar> + \<bar>?d - ?q\<bar> + \<bar>?q - p\<bar>" by linarith
  then show ?thesis unfolding r using e1' e2 e3' by linarith
qed


lemma items_per_order_range: "1 \<le> fst (items_per_order R s) \<and> fst (items_per_order R s) \<le> 6"
  by (simp add: items_per_order_def split: prod.splits)




text \<open>
  Claim C9. The average-items-per-order argument has no effect: the order-items producer
  started in the same state of the random source with the same counts emits the same rows
  (and leaves the same state) for any two values of \<open>avg_items\<close>, and so does a whole run
  for any two values of the command-line argument.
\<close>

theorem avg_items_has_no_effect:
  "gen_order_items R n_orders n_products avg1 s = gen_order_items R n_orders n_products avg2 s \<and>
   main (a\<lparr>items_avg := avg1\<rparr>) R F now w = main (a\<lparr>items_avg := avg2\<rparr>) R F now w"
  by (simp add: gen_order_items_def main_def)

theorem avg_items_has_no_effect_witness:
  "gen_order_items counter_source 2 2 3 0 = gen_order_items counter_source 2 2 (7/2) 0 \<and>
   main (default_args\<lparr>items_avg := 3\<rparr>) counter_source (counter_faker 20000) 0 empty_world
     = main (default_args\<lparr>items_avg := 7/2\<rparr>) counter_source (counter_faker 20000) 0 empty_world"
  by (rule avg_items_has_no_effect)

subsection \<open>The generator loop\<close>

lemma run_generator_nth:
  assumes body: "\<And>i st r st'. body i st = Inr (r, st') \<Longrightarrow> P i r"
    and run: "run_generator body n i st = ((rows, err), st')"
    and k: "k < length rows"
  shows "P (i + int k) (rows ! k)"
  using run k
proof (induction n arbitrary: i st rows err st' k)
  case 0
  then show ?case by simp
next
  case (Suc n)
  show ?case
  proof (cases "body i st")
    case (Inl e)
    with Suc.prems show ?thesis by simp
  next
    case (Inr p)
    obtain r st1 where p: "p = (r, st1)" by (cases p)
    obtain rs err1 st2 where rec: "run_generator body n (i + 1) st1 = ((rs, err1), st2)"
      by (metis prod.exhaust)
    from Suc.prems(1) Inr p rec have rows: "rows = r # rs" by simp
    show ?thesis
    proof (cases k)
      case 0
      then show ?thesis using body[of i st r st1] Inr p rows by simp
    next
      case (Suc j)
      then have "j < length rs" using Suc.prems(2) rows by simp
      from Suc.IH[OF rec this] show ?thesis using Suc rows by (simp add: algebra_simps)
    qed
  qed
qed

lemma run_generator_set:
  assumes body: "\<And>i st r st'. body i st = Inr (r, st') \<Longrightarrow> P r"
    and run: "run_generator body n i st = ((rows, err), st')"
    and r: "r \<in> set rows"
  shows "P r"
proof -
  from r obtain k where k: "k < length rows" "rows ! k = r" by (auto simp: in_set_conv_nth)
  from run_generator_nth[where P = "\<lambda>i r. P r", OF body run k(1)] k(2) show ?thesis by simp
qed

lemma run_generator_length:
  assumes "run_generator body n i st = ((rows, err), st')"
  shows "length rows \<le> n \<and> (err = None \<longrightarrow> length rows = n)"
  using assms
proof (induction n arbitrary: i st rows err st')
  case 0
  then show ?case by simp
next
  case (Suc n)
  show ?case
  proof (cases "body i st")
    case (Inl e)
    with Suc.prems show ?thesis by auto
  next
    case (Inr p)
    obtain r st1 where p: "p = (r, st1)" by (cases p)
    obtain rs err1 st2 where rec: "run_generator body n (i + 1) st1 = ((rs, err1), st2)"
      by (metis prod.exhaust)
    from Suc.prems Inr p rec have "rows = r # rs" "err = err1" by simp_all
    with Suc.IH[OF rec] show ?thesis by simp
  qed
qed

lemma run_generator_total:
  assumes "\<And>i st. \<exists>r st'. body i st = Inr (r, st')"
  shows "\<exists>rows st'. run_generator body n i st = ((rows, None), st') \<and> length rows = n"
proof (induction n arbitrary: i st)
  case 0
  then show ?case by simp
next
  case (Suc n)
  from assms[of i st] obtain r st1 where b: "body i st = Inr (r, st1)" by blast
  from Suc[of "i + 1" st1] obtain rs st2
    where rec: "run_generator body n (i + 1) st1 = ((rs, None), st2)" "length rs = n" by blast
  show ?case using b rec by simp
qed

lemma run_generator_fails_first:
  assumes "body i st = Inl e" "0 < n"
  shows "run_generator body n i st = (([], Some e), st)"
proof -
  from assms(2) obtain m where "n = Suc m" by (cases n) auto
  then show ?thesis using assms(1) by simp
qed

lemma upto_nth_key: "k < n \<Longrightarrow> [i..i + int n - 1] ! k = i + int k"
  by (simp add: nth_upto)

lemma run_generator_keys:
  assumes body: "\<And>i st r st'. body i st = Inr (r, st') \<Longrightarrow> r ! 0 = PInt i"
    and run: "run_generator body n i st = ((rows, err), st')"
  shows "map (\<lambda>r. r ! 0) rows = map PInt [i..i + int (length rows) - 1]"
proof (rule nth_equalityI)
  show "length (map (\<lambda>r. r ! 0) rows) = length (map PInt [i..i + int (length rows) - 1])"
    by simp
next
  fix k assume "k < length (map (\<lambda>r. r ! 0) rows)"
  then have k: "k < length rows" by simp
  from run_generator_nth[where P = "\<lambda>i r. r ! 0 = PInt i", OF body run k]
  show "map (\<lambda>r. r ! 0) rows ! k = map PInt [i..i + int (length rows) - 1] ! k"
    using k by (simp add: upto_nth_key)
qed

subsection \<open>The rows of the four producers\<close>

lemma py_choice_ok:
  "xs \<noteq> [] \<Longrightarrow> \<exists>x s'. py_choice R xs s = Inr (x, s')"
  by (simp add: py_choice_def split: prod.splits)

lemma py_choice_mem:
  assumes "rng_ok R" "py_choice R xs s = Inr (x, s')"
  shows "x \<in> set xs"
proof -
  from assms(2) have ne: "xs \<noteq> []" by (auto simp: py_choice_def split: if_splits)
  then have "fst (rs_randbelow R (length xs) s) < length xs"
    using assms(1) by (simp add: rng_ok_def)
  with assms(2) ne show ?thesis by (auto simp: py_choice_def split: prod.splits)
qed

lemma product_row_key:
  "product_row R F pid st = Inr (r, st') \<Longrightarrow> r ! 0 = PInt pid"
  by (auto simp: product_row_def py_bind_def Let_def split: prod.splits sum.splits)

lemma customer_row_key:
  "customer_row R F cid st = Inr (r, st') \<Longrightarrow> r ! 0 = PInt cid"
  by (auto simp: customer_row_def py_bind_def Let_def split: prod.splits sum.splits)

lemma order_row_key:
  "order_row R n_customers start end oid s = Inr (r, s') \<Longrightarrow> r ! 0 = PInt oid"
  by (auto simp: order_row_def py_bind_def Let_def split: prod.splits sum.splits)

lemma item_row_key:
  "item_row R n_products oid item_id s = Inr (r, s') \<Longrightarrow> r ! 0 = PInt item_id \<and> r ! 1 = PInt oid"
  by (auto simp: item_row_def py_bind_def Let_def split: prod.splits sum.splits)

subsection \<open>The order-items producer\<close>

lemma items_of_order_run:
  "items_of_order R n_products oid k item_id s =
     (case run_generator (item_row R n_products oid) k item_id s of
        ((rows, err), s') \<Rightarrow> ((rows, err), (item_id + int (length rows), s')))"
  by (induction k arbitrary: item_id s) (auto split: sum.splits prod.splits)

lemma order_items_loop_nth:
  assumes "order_items_loop R n_products n oid item_id s = ((rows, err), s')" "k < length rows"
  shows "rows ! k ! 0 = PInt (item_id + int k)"
  using assms
proof (induction n arbitrary: oid item_id s rows err s' k)
  case 0
  then show ?case by simp
next
  case (Suc n)
  obtain c s1 where c: "items_per_order R s = (c, s1)" by (cases "items_per_order R s")
  obtain rs1 e1 s2 where g: "run_generator (item_row R n_products oid) (nat c) item_id s1 = ((rs1, e1), s2)"
    by (metis prod.exhaust)
  have key1: "j < length rs1 \<Longrightarrow> rs1 ! j ! 0 = PInt (item_id + int j)" for j
    by (rule run_generator_nth[where P = "\<lambda>i r. r ! 0 = PInt i", OF item_row_key[THEN conjunct1] g])
  show ?case
  proof (cases e1)
    case (Some e)
    with Suc.prems(1) c g have "rows = rs1" by (simp add: items_of_order_run)
    with key1 Suc.prems(2) show ?thesis by simp
  next
    case None
    obtain rs2 e2 s3 where rec:
      "order_items_loop R n_products n (oid + 1) (item_id + int (length rs1)) s2 = ((rs2, e2), s3)"
      by (metis prod.exhaust)
    from Suc.prems(1) c g None rec have rows: "rows = rs1 @ rs2" by (simp add: items_of_order_run)
    show ?thesis
    proof (cases "k < length rs1")
      case True
      with key1 rows show ?thesis by (simp add: nth_append)
    next
      case False
      then have "k - length rs1 < length rs2" using Suc.prems(2) rows by simp
      from Suc.IH[OF rec this] False rows show ?thesis by (simp add: nth_append algebra_simps)
    qed
  qed
qed

lemma order_items_loop_set:
  assumes body: "\<And>oid i s r s'. item_row R n_products oid i s = Inr (r, s') \<Longrightarrow> P r"
    and "order_items_loop R n_products n oid item_id s = ((rows, err), s')" "r \<in> set rows"
  shows "P r"
  using assms(2,3)
proof (induction n arbitrary: oid item_id s rows err s')
  case 0
  then show ?case by simp
next
  case (Suc n)
  obtain c s1 where c: "items_per_order R s = (c, s1)" by (cases "items_per_order R s")
  obtain rs1 e1 s2 where g: "run_generator (item_row R n_products oid) (nat c) item_id s1 = ((rs1, e1), s2)"
    by (metis prod.exhaust)
  have p1: "x \<in> set rs1 \<Longrightarrow> P x" for x
    using run_generator_set[where P = P, OF _ g] body by blast
  show ?case
  proof (cases e1)
    case (Some e)
    with Suc.prems(1) c g have "rows = rs1" by (simp add: items_of_order_run)
    with p1 Suc.prems(2) show ?thesis by simp
  next
    case None
    obtain rs2 e2 s3 where rec:
      "order_items_loop R n_products n (oid + 1) (item_id + int (length rs1)) s2 = ((rs2, e2), s3)"
      by (metis prod.exhaust)
    from Suc.prems(1) c g None rec have rows: "rows = rs1 @ rs2" by (simp add: items_of_order_run)
    with Suc.prems(2) have "r \<in> set rs1 \<or> r \<in> set rs2" by simp
    then show ?thesis using p1 Suc.IH[OF rec] by blast
  qed
qed

lemma rng_ok_random: "rng_ok R \<Longrightarrow> 0 \<le> fst (rs_random R s) \<and> fst (rs_random R s) < 1"
  by (simp add: rng_ok_def)

lemma rng_ok_randint:
  "rng_ok R \<Longrightarrow> a \<le> b \<Longrightarrow> a \<le> fst (rs_randint R a b s) \<and> fst (rs_randint R a b s) \<le> b"
  by (simp add: rng_ok_def)

lemma rng_ok_uniform:
  "rng_ok R \<Longrightarrow> a \<le> b \<Longrightarrow> a \<le> fst (rs_uniform R a b s) \<and> fst (rs_uniform R a b s) \<le> b"
  by (simp add: rng_ok_def)

lemma rng_ok_gauss:
  "rng_ok R \<Longrightarrow> 0 \<le> sigma \<Longrightarrow> \<bar>fst (rs_gauss R mu sigma s) - mu\<bar> \<le> 9 * sigma"
  by (simp add: rng_ok_def)

lemma py_randint_ok:
  assumes "rng_ok R" "a \<le> b"
  shows "\<exists>v s'. py_randint R a b s = Inr (v, s') \<and> a \<le> v \<and> v \<le> b"
proof -
  obtain v s' where v: "rs_randint R a b s = (v, s')" by (cases "rs_randint R a b s")
  have "a \<le> fst (rs_randint R a b s) \<and> fst (rs_randint R a b s) \<le> b"
    using rng_ok_randint[OF assms] .
  then show ?thesis using v assms(2) by (simp add: py_randint_def)
qed

lemma py_randint_range:
  assumes "rng_ok R" "py_randint R a b s = Inr (v, s')"
  shows "a \<le> v \<and> v \<le> b"
proof -
  from assms(2) have ab: "a \<le> b" by (auto simp: py_randint_def split: if_splits)
  from py_randint_ok[OF assms(1) ab, of s] assms(2) show ?thesis by auto
qed

lemma item_row_total:
  assumes "rng_ok R" "1 \<le> n_products"
  shows "\<exists>r s'. item_row R n_products oid item_id s = Inr (r, s')"
proof -
  from py_randint_ok[OF assms(1,2), of s] obtain pid s1
    where p: "py_randint R 1 n_products s = Inr (pid, s1)" by blast
  obtain r s2 where r: "rs_random R s1 = (r, s2)" by (cases "rs_random R s1")
  have "\<exists>qty s3. (if r < 7/10 then Inr (1, s2) else py_randint R 2 5 s2) = Inr (qty, s3)"
    using py_randint_ok[OF assms(1), of 2 5 s2] by auto
  then obtain qty s3 where q: "(if r < 7/10 then Inr (1, s2) else py_randint R 2 5 s2) = Inr (qty, s3)"
    by blast
  show ?thesis
    unfolding item_row_def using p r q by (simp add: py_bind_def Let_def split: prod.splits)
qed

lemma item_row_fields:
  assumes "rng_ok R" "item_row R n_products oid item_id s = Inr (r, s')"
  shows "\<exists>pid qty g. r = [PInt item_id, PInt oid, PInt pid, PInt qty,
            PFloat (py_round (max 1 g) 2),
            PFloat (py_round (binary64 (py_round (max 1 g) 2 * of_int qty)) 2)]
          \<and> 1 \<le> pid \<and> pid \<le> n_products \<and> 1 \<le> qty \<and> qty \<le> 5 \<and> \<bar>g - 60\<bar> \<le> 450"
proof -
  from assms(2) obtain pid s1 where p: "py_randint R 1 n_products s = Inr (pid, s1)"
    by (auto simp: item_row_def py_bind_def split: sum.splits)
  obtain x s2 where x: "rs_random R s1 = (x, s2)" by (cases "rs_random R s1")
  from assms(2) p x obtain qty s3
    where q: "(if x < 7/10 then Inr (1, s2) else py_randint R 2 5 s2) = Inr (qty, s3)"
    by (auto simp: item_row_def py_bind_def split: sum.splits)
  obtain g s4 where g: "rs_gauss R 60 50 s3 = (g, s4)" by (cases "rs_gauss R 60 50 s3")
  have pr: "1 \<le> pid \<and> pid \<le> n_products" using py_randint_range[OF assms(1) p] .
  have qr: "1 \<le> qty \<and> qty \<le> 5"
  proof (cases "x < 7/10")
    case True
    with q show ?thesis by simp
  next
    case False
    with q have "py_randint R 2 5 s2 = Inr (qty, s3)" by simp
    from py_randint_range[OF assms(1) this] show ?thesis by simp
  qed
  have "\<bar>fst (rs_gauss R 60 50 s3) - 60\<bar> \<le> 9 * 50"
    using rng_ok_gauss[OF assms(1), of 50 60 s3] by simp
  then have gr: "\<bar>g - 60\<bar> \<le> 450" using g by simp
  have "r = [PInt item_id, PInt oid, PInt pid, PInt qty,
            PFloat (py_round (max 1 g) 2),
            PFloat (py_round (binary64 (py_round (max 1 g) 2 * of_int qty)) 2)]"
    using assms(2) p x q g by (simp add: item_row_def py_bind_def Let_def)
  with pr qr gr show ?thesis by blast
qed

lemma order_items_loop_total:
  assumes "rng_ok R" "1 \<le> n_products"
  shows "\<exists>rows s'. order_items_loop R n_products n oid item_id s = ((rows, None), s')
           \<and> n \<le> length rows \<and> length rows \<le> 6 * n
           \<and> (\<forall>j < n. \<exists>r \<in> set rows. r ! 1 = PInt (oid + int j))"
proof (induction n arbitrary: oid item_id s)
  case 0
  then show ?case by simp
next
  case (Suc n)
  obtain c s1 where c: "items_per_order R s = (c, s1)" by (cases "items_per_order R s")
  have cr: "1 \<le> c" "c \<le> 6" using items_per_order_range[of R s] c by simp_all
  from run_generator_total[of "item_row R n_products oid" "nat c" item_id s1]
    item_row_total[OF assms]
  obtain rs1 s2 where g: "run_generator (item_row R n_products oid) (nat c) item_id s1 = ((rs1, None), s2)"
    and l1: "length rs1 = nat c" by blast
  from Suc[of "oid + 1" "item_id + int (length rs1)" s2] obtain rs2 s3 where
    rec: "order_items_loop R n_products n (oid + 1) (item_id + int (length rs1)) s2 = ((rs2, None), s3)"
    and l2: "n \<le> length rs2" "length rs2 \<le> 6 * n"
    and cov: "\<forall>j < n. \<exists>r \<in> set rs2. r ! 1 = PInt (oid + 1 + int j)" by blast
  have run: "order_items_loop R n_products (Suc n) oid item_id s = ((rs1 @ rs2, None), s3)"
    using c g rec by (simp add: items_of_order_run)
  have len: "Suc n \<le> length (rs1 @ rs2)" "length (rs1 @ rs2) \<le> 6 * Suc n"
    using l1 l2 cr by simp_all
  have first: "\<exists>r \<in> set rs1. r ! 1 = PInt oid"
  proof -
    have "0 < length rs1" using l1 cr by simp
    then have "rs1 ! 0 \<in> set rs1" by simp
    moreover have "rs1 ! 0 ! 1 = PInt oid"
      by (rule run_generator_nth[where P = "\<lambda>i r. r ! 1 = PInt oid",
            OF item_row_key[THEN conjunct2] g \<open>0 < length rs1\<close>])
    ultimately show ?thesis by blast
  qed
  have "\<exists>r \<in> set (rs1 @ rs2). r ! 1 = PInt (oid + int j)" if "j < Suc n" for j
  proof (cases j)
    case 0
    with first show ?thesis by auto
  next
    case (Suc i)
    with that have "i < n" by simp
    with cov obtain r where "r \<in> set rs2" "r ! 1 = PInt (oid + 1 + int i)" by blast
    then show ?thesis using Suc by (auto simp: algebra_simps)
  qed
  with run len show ?case by blast
qed

subsection \<open>The small random source meets the library's guarantees\<close>

lemma counter_source_ok: "rng_ok counter_source"
proof -
  have u: "a \<le> a + (b - a) * (of_nat (s mod 4) / 4) \<and> a + (b - a) * (of_nat (s mod 4) / 4) \<le> b"
    if "a \<le> b" for a b :: rat and s :: nat
  proof -
    have f: "(0::rat) \<le> of_nat (s mod 4) / 4" "(of_nat (s mod 4) :: rat) / 4 \<le> 1" by simp_all
    have "0 \<le> (b - a) * (of_nat (s mod 4) / 4)" using that f(1) by simp
    moreover have "(b - a) * (of_nat (s mod 4) / 4) \<le> (b - a) * 1"
      using that f(2) by (intro mult_left_mono) simp_all
    ultimately show ?thesis by simp
  qed
  have g: "\<bar>mu + sigma * (of_nat (s mod 5) - 2) - mu\<bar> \<le> 9 * sigma"
    if "0 \<le> sigma" for mu sigma :: rat and s :: nat
  proof -
    have "s mod 5 < 5" by simp
    then have "(of_nat (s mod 5) :: rat) < of_nat 5" by (simp only: of_nat_less_iff)
    then have "\<bar>(of_nat (s mod 5) :: rat) - 2\<bar> \<le> 9" by (simp add: abs_le_iff)
    then have "sigma * \<bar>(of_nat (s mod 5) :: rat) - 2\<bar> \<le> sigma * 9"
      using that by (intro mult_left_mono)
    then show ?thesis using that by (simp add: abs_mult mult.commute)
  qed
  have i: "a \<le> a + int s mod (b - a + 1) \<and> a + int s mod (b - a + 1) \<le> b"
    if "a \<le> b" for a b :: int and s :: nat
  proof -
    have "0 < b - a + 1" using that by simp
    from pos_mod_sign[OF this, of "int s"] pos_mod_bound[OF this, of "int s"]
    show ?thesis by linarith
  qed
  show ?thesis
    unfolding rng_ok_def counter_source_def random_source.sel
    using u g i by simp
qed

subsection \<open>Surrogate keys\<close>

lemma keys_from_nth:
  assumes "\<And>k. k < length rows \<Longrightarrow> rows ! k ! 0 = PInt (i + int k)"
  shows "surrogate_keys rows = map PInt [i..i + int (length rows) - 1]"
  unfolding surrogate_keys_def
proof (rule nth_equalityI)
  show "length (map (\<lambda>r. r ! 0) rows) = length (map PInt [i..i + int (length rows) - 1])"
    by simp
next
  fix k assume "k < length (map (\<lambda>r. r ! 0) rows)"
  then have k: "k < length rows" by simp
  with assms[OF k] show "map (\<lambda>r. r ! 0) rows ! k = map PInt [i..i + int (length rows) - 1] ! k"
    by (simp add: upto_nth_key)
qed

lemma run_generator_surrogate_keys:
  assumes "\<And>i st r st'. body i st = Inr (r, st') \<Longrightarrow> r ! 0 = PInt i"
  shows "surrogate_keys (rows_of (run_generator body n 1 st))
           = map PInt [1..int (length (rows_of (run_generator body n 1 st)))]"
proof -
  obtain rows err st' where run: "run_generator body n 1 st = ((rows, err), st')"
    by (metis prod.exhaust)
  have "surrogate_keys rows = map PInt [1..1 + int (length rows) - 1]"
    by (rule keys_from_nth) (rule run_generator_nth[where P = "\<lambda>i r. r ! 0 = PInt i", OF assms run])
  then show ?thesis using run by (simp add: rows_of_def)
qed

lemma gen_orders_run:
  "gen_orders R F n_orders n_customers now s
     = run_generator (order_row R n_customers (now - timedelta_days 730) now) (nat n_orders) 1 s"
  by (simp add: gen_orders_def daterange_def timedelta_days_def Let_def)

text \<open>
  Claim C5. For each of the four producers and every count, the surrogate keys of the
  rows emitted (also of the rows emitted before an exception) are 1, 2, \<dots>, up to the
  number of rows emitted, in this order.
\<close>

theorem surrogate_keys_contiguous:
  "surrogate_keys (rows_of (gen_products R F n_products st))
     = map PInt [1..int (length (rows_of (gen_products R F n_products st)))] \<and>
   surrogate_keys (rows_of (gen_customers R F n_customers st))
     = map PInt [1..int (length (rows_of (gen_customers R F n_customers st)))] \<and>
   surrogate_keys (rows_of (gen_orders R F n_orders n_customers now s))
     = map PInt [1..int (length (rows_of (gen_orders R F n_orders n_customers now s)))] \<and>
   surrogate_keys (rows_of (gen_order_items R n_orders n_products avg_items s))
     = map PInt [1..int (length (rows_of (gen_order_items R n_orders n_products avg_items s)))]"
proof -
  have p: "surrogate_keys (rows_of (gen_products R F n_products st))
     = map PInt [1..int (length (rows_of (gen_products R F n_products st)))]"
    unfolding gen_products_def by (rule run_generator_surrogate_keys) (rule product_row_key)
  have c: "surrogate_keys (rows_of (gen_customers R F n_customers st))
     = map PInt [1..int (length (rows_of (gen_customers R F n_customers st)))]"
    unfolding gen_customers_def by (rule run_generator_surrogate_keys) (rule customer_row_key)
  have o: "surrogate_keys (rows_of (gen_orders R F n_orders n_customers now s))
     = map PInt [1..int (length (rows_of (gen_orders R F n_orders n_customers now s)))]"
    unfolding gen_orders_run by (rule run_generator_surrogate_keys) (rule order_row_key)
  obtain rows err s' where run:
    "order_items_loop R n_products (nat n_orders) 1 1 s = ((rows, err), s')"
    by (metis prod.exhaust)
  have "surrogate_keys rows = map PInt [1..1 + int (length rows) - 1]"
    by (rule keys_from_nth) (rule order_items_loop_nth[OF run])
  then have i: "surrogate_keys (rows_of (gen_order_items R n_orders n_products avg_items s))
     = map PInt [1..int (length (rows_of (gen_order_items R n_orders n_products avg_items s)))]"
    using run by (simp add: gen_order_items_def rows_of_def)
  from p c o i show ?thesis by blast
qed


subsection \<open>Producers that cannot raise\<close>

lemma customer_row_total: "\<exists>r st'. customer_row R F cid st = Inr (r, st')"
  by (cases st)
    (simp add: customer_row_def py_bind_def py_choice_def countries_def sources_def Let_def
      split: prod.splits)

lemma gen_customers_total:
  "raised_of (gen_customers R F n st) = None \<and> length (rows_of (gen_customers R F n st)) = nat n"
proof -
  from run_generator_total[of "customer_row R F" "nat n" 1 st, OF customer_row_total]
  obtain rows st' where "run_generator (customer_row R F) (nat n) 1 st = ((rows, None), st')"
    "length rows = nat n" by blast
  then show ?thesis by (simp add: gen_customers_def raised_of_def rows_of_def)
qed

lemma categories_nonempty:
  assumes "(cat, subs, brands) \<in> set categories"
  shows "subs \<noteq> [] \<and> brands \<noteq> []"
  using assms by (auto simp: categories_def)

lemma product_row_total:
  assumes "rng_ok R"
  shows "\<exists>r st'. product_row R F pid st = Inr (r, st')"
proof -
  obtain s f where st: "st = (s, f)" by (cases st)
  have "categories \<noteq> []" by (simp add: categories_def)
  from py_choice_ok[OF this, of R s] obtain c s1 where c: "py_choice R categories s = Inr (c, s1)"
    by blast
  obtain cat subs brands where cc: "c = (cat, subs, brands)" by (cases c)
  from py_choice_mem[OF assms c] cc have "(cat, subs, brands) \<in> set categories" by simp
  from categories_nonempty[OF this] have ne: "subs \<noteq> []" "brands \<noteq> []" by simp_all
  from py_choice_ok[OF ne(1), of R s1] obtain sub s2 where s2: "py_choice R subs s1 = Inr (sub, s2)"
    by blast
  from py_choice_ok[OF ne(2), of R s2] obtain brand s3 where s3: "py_choice R brands s2 = Inr (brand, s3)"
    by blast
  show ?thesis
    unfolding product_row_def st using c cc s2 s3
    by (simp add: py_bind_def Let_def split: prod.splits)
qed

lemma gen_products_total:
  assumes "rng_ok R"
  shows "raised_of (gen_products R F n st) = None \<and> length (rows_of (gen_products R F n st)) = nat n"
proof -
  from run_generator_total[of "product_row R F" "nat n" 1 st, OF product_row_total[OF assms]]
  obtain rows st' where "run_generator (product_row R F) (nat n) 1 st = ((rows, None), st')"
    "length rows = nat n" by blast
  then show ?thesis by (simp add: gen_products_def raised_of_def rows_of_def)
qed

lemma total_seconds_730: "py_int (total_seconds (timedelta_days 730)) = 63072000"
  by code_simp

lemma rand_datetime_730:
  "rand_datetime R (now - timedelta_days 730) now s
     = Inr (now - timedelta_days 730 + timedelta_seconds (fst (rs_randint R 0 63072000 s)),
            snd (rs_randint R 0 63072000 s))"
  by (simp add: rand_datetime_def Let_def total_seconds_730 py_randint_def py_bind_def
      split: prod.splits)

lemma order_row_total:
  assumes "1 \<le> n_customers"
  shows "\<exists>r s'. order_row R n_customers (now - timedelta_days 730) now oid s = Inr (r, s')"
  using assms
  by (simp add: order_row_def rand_datetime_730 py_bind_def py_randint_def py_choice_def
      statuses_def currencies_def pay_methods_def countries_def Let_def split: prod.splits)

lemma order_row_raises:
  assumes "n_customers < 1"
  shows "order_row R n_customers start end oid s = Inl ValueError"
  using assms by (simp add: order_row_def py_bind_def py_randint_def)

lemma gen_orders_total:
  assumes "1 \<le> n_customers"
  shows "raised_of (gen_orders R F n n_customers now s) = None
       \<and> length (rows_of (gen_orders R F n n_customers now s)) = nat n"
proof -
  from run_generator_total[of "order_row R n_customers (now - timedelta_days 730) now" "nat n" 1 s,
      OF order_row_total[OF assms]]
  obtain rows s' where
    "run_generator (order_row R n_customers (now - timedelta_days 730) now) (nat n) 1 s = ((rows, None), s')"
    "length rows = nat n" by blast
  then show ?thesis by (simp add: gen_orders_run raised_of_def rows_of_def)
qed

lemma gen_orders_raises:
  assumes "n_customers < 1" "0 < n"
  shows "gen_orders R F n n_customers now s = (([], Some ValueError), s)"
  unfolding gen_orders_run
  by (rule run_generator_fails_first) (use assms in \<open>simp_all add: order_row_raises\<close>)

lemma unroll_2: "(2::nat) = Suc (Suc 0)"
  by simp

theorem surrogate_keys_contiguous_witness:
  "surrogate_keys (rows_of (gen_products counter_source (counter_faker 20000) 2 (42, 42)))
     = [PInt 1, PInt 2] \<and>
   surrogate_keys (rows_of (gen_customers counter_source (counter_faker 20000) 2 (42, 42)))
     = [PInt 1, PInt 2] \<and>
   surrogate_keys (rows_of (gen_orders counter_source (counter_faker 20000) 2 2 1700000000123456 42))
     = [PInt 1, PInt 2] \<and>
   surrogate_keys (rows_of (gen_order_items counter_source 2 2 3 42))
     = [PInt 1, PInt 2, PInt 3]"
proof -
  have l: "length (rows_of (gen_products counter_source (counter_faker 20000) 2 (42, 42))) = 2"
    "length (rows_of (gen_customers counter_source (counter_faker 20000) 2 (42, 42))) = 2"
    "length (rows_of (gen_orders counter_source (counter_faker 20000) 2 2 1700000000123456 42)) = 2"
    using gen_products_total[OF counter_source_ok, of "counter_faker 20000" 2 "(42, 42)"]
      gen_customers_total[of counter_source "counter_faker 20000" 2 "(42, 42)"]
      gen_orders_total[of 2 counter_source "counter_faker 20000" 2 1700000000123456 42]
    by simp_all
  have i: "length (rows_of (gen_order_items counter_source 2 2 3 42)) = 3"
    by (simp add: gen_order_items_def rows_of_def unroll_2 items_per_order_def item_row_def
        py_bind_def py_randint_def counter_source_def Let_def)
  have u: "[1..2] = [1, 2::int]" "[1..3] = [1, 2, 3::int]" by (simp_all add: upto.simps)
  show ?thesis
    using surrogate_keys_contiguous[where R = counter_source and F = "counter_faker 20000"
        and n_products = 2 and st = "(42, 42)" and n_customers = 2 and n_orders = 2
        and now = 1700000000123456 and s = 42 and avg_items = 3]
    unfolding l i by (simp add: u)
qed

subsection \<open>Coverage of the orders by the order items\<close>

text \<open>
  Claim C6. For at least one order and at least one product, the order-items producer
  finishes without raising; every order id from 1 to the number of orders is the order id
  of at least one row; the number of rows lies between the number of orders and six times
  that number; and every product id lies between 1 and the number of products.
\<close>

theorem order_items_cover_orders:
  assumes "rng_ok R" "1 \<le> n_orders" "1 \<le> n_products"
  shows "raised_of (gen_order_items R n_orders n_products avg_items s) = None \<and>
    (\<forall>oid \<in> {1..n_orders}.
       \<exists>r \<in> set (rows_of (gen_order_items R n_orders n_products avg_items s)). r ! 1 = PInt oid) \<and>
    n_orders \<le> int (length (rows_of (gen_order_items R n_orders n_products avg_items s))) \<and>
    int (length (rows_of (gen_order_items R n_orders n_products avg_items s))) \<le> 6 * n_orders \<and>
    (\<forall>r \<in> set (rows_of (gen_order_items R n_orders n_products avg_items s)).
       \<exists>pid. r ! 2 = PInt pid \<and> 1 \<le> pid \<and> pid \<le> n_products)"
proof -
  from order_items_loop_total[OF assms(1,3), of "nat n_orders" 1 1 s]
  obtain rows s' where run: "order_items_loop R n_products (nat n_orders) 1 1 s = ((rows, None), s')"
    and len: "nat n_orders \<le> length rows" "length rows \<le> 6 * nat n_orders"
    and cov: "\<forall>j < nat n_orders. \<exists>r \<in> set rows. r ! 1 = PInt (1 + int j)" by blast
  have g: "gen_order_items R n_orders n_products avg_items s = ((rows, None), s')"
    using run by (simp add: gen_order_items_def)
  have c: "\<exists>r \<in> set rows. r ! 1 = PInt oid" if "oid \<in> {1..n_orders}" for oid
  proof -
    from that have "nat (oid - 1) < nat n_orders" by auto
    with cov obtain r where "r \<in> set rows" "r ! 1 = PInt (1 + int (nat (oid - 1)))" by blast
    then show ?thesis using that by auto
  qed
  have p: "\<exists>pid. r ! 2 = PInt pid \<and> 1 \<le> pid \<and> pid \<le> n_products" if "r \<in> set rows" for r
  proof (rule order_items_loop_set[where P = "\<lambda>r. \<exists>pid. r ! 2 = PInt pid \<and> 1 \<le> pid \<and> pid \<le> n_products",
        OF _ run that])
    fix oid i s r s'
    assume "item_row R n_products oid i s = Inr (r, s')"
    from item_row_fields[OF assms(1) this]
    show "\<exists>pid. r ! 2 = PInt pid \<and> 1 \<le> pid \<and> pid \<le> n_products" by auto
  qed
  have l: "n_orders \<le> int (length rows)" "int (length rows) \<le> 6 * n_orders"
    using len assms(2) by simp_all
  show ?thesis unfolding g using c p l by (simp add: raised_of_def rows_of_def)
qed

lemma gen_order_items_2_2:
  "gen_order_items counter_source 2 2 3 42 =
     (([[PInt 1, PInt 1, PInt 2, PInt 1, PFloat 1, PFloat 1],
        [PInt 2, PInt 1, PInt 1, PInt 2, PFloat 160, PFloat 320],
        [PInt 3, PInt 2, PInt 2, PInt 3, PFloat 160, PFloat 480]], None), 55)"
  apply (simp add: gen_order_items_def unroll_2 items_per_order_def item_row_def
      py_bind_def py_randint_def counter_source_def Let_def)
  apply code_simp
  done

theorem order_items_cover_orders_witness:
  "rng_ok counter_source \<and>
   raised_of (gen_order_items counter_source 2 2 3 42) = None \<and>
   map (\<lambda>r. r ! 1) (rows_of (gen_order_items counter_source 2 2 3 42)) = [PInt 1, PInt 1, PInt 2] \<and>
   map (\<lambda>r. r ! 2) (rows_of (gen_order_items counter_source 2 2 3 42)) = [PInt 2, PInt 1, PInt 2] \<and>
   (2::int) \<le> int (length (rows_of (gen_order_items counter_source 2 2 3 42))) \<and>
   int (length (rows_of (gen_order_items counter_source 2 2 3 42))) \<le> 6 * 2"
  using order_items_cover_orders[OF counter_source_ok, of 2 2 3 42] counter_source_ok
  by (simp add: gen_order_items_2_2 rows_of_def raised_of_def)

subsection \<open>Line totals\<close>

lemma py_round2_of_int:
  assumes "0 \<le> n" "n \<le> 2 ^ 40"
  shows "py_round (of_int n) 2 = of_int n"
proof -
  have "round_half_even (of_int n * 100) = n * 100"
    using rhe_of_int[of "n * 100"] by simp
  then have "py_round (of_int n) 2 = binary64 (of_int n)" by (simp add: py_round_def)
  also have "\<dots> = of_int n"
    using binary64_exact[of n 0] assms by simp
  finally show ?thesis .
qed

lemma unit_price_bounds:
  assumes "\<bar>g - 60\<bar> \<le> 450"
  shows "0 \<le> py_round (max 1 g) 2" "py_round (max 1 g) 2 \<le> 510"
    "py_round (py_round (max 1 g) 2) 2 = py_round (max 1 g) 2"
proof -
  have m: "0 \<le> max 1 g" "max 1 g \<le> 510" using assms by (simp_all add: abs_le_iff max_def)
  show "0 \<le> py_round (max 1 g) 2" using m(1) by (rule py_round_nonneg)
  have "py_round (max 1 g) 2 \<le> py_round (of_int 510) 2"
    using m by (intro py_round_mono) simp_all
  also have "\<dots> = of_int 510" by (rule py_round2_of_int) simp_all
  finally show "py_round (max 1 g) 2 \<le> 510" by simp
  show "py_round (py_round (max 1 g) 2) 2 = py_round (max 1 g) 2"
    using m by (intro py_round2_idem) simp_all
qed

text \<open>
  Claim C4. In every row of the order-items producer the quantity is an integer from 1 to
  5, the unit price is a value rounded to two decimals (rounding it again changes
  nothing), and the line total differs from unit price times quantity by at most 0.01.
\<close>

theorem line_total_matches_unit_price_times_quantity:
  assumes "rng_ok R"
  shows "\<forall>r \<in> set (rows_of (gen_order_items R n_orders n_products avg_items s)).
    \<exists>qty unit_price line_total.
      r ! 3 = PInt qty \<and> r ! 4 = PFloat unit_price \<and> r ! 5 = PFloat line_total \<and>
      1 \<le> qty \<and> qty \<le> 5 \<and> py_round unit_price 2 = unit_price \<and>
      \<bar>line_total - unit_price * of_int qty\<bar> \<le> 1 / 100"
proof
  fix r
  assume r: "r \<in> set (rows_of (gen_order_items R n_orders n_products avg_items s))"
  obtain rows err s' where run: "order_items_loop R n_products (nat n_orders) 1 1 s = ((rows, err), s')"
    by (metis prod.exhaust)
  from r run have rin: "r \<in> set rows" by (simp add: gen_order_items_def rows_of_def)
  show "\<exists>qty unit_price line_total.
      r ! 3 = PInt qty \<and> r ! 4 = PFloat unit_price \<and> r ! 5 = PFloat line_total \<and>
      1 \<le> qty \<and> qty \<le> 5 \<and> py_round unit_price 2 = unit_price \<and>
      \<bar>line_total - unit_price * of_int qty\<bar> \<le> 1 / 100"
  proof (rule order_items_loop_set[where P = "\<lambda>r. \<exists>qty unit_price line_total.
      r ! 3 = PInt qty \<and> r ! 4 = PFloat unit_price \<and> r ! 5 = PFloat line_total \<and>
      1 \<le> qty \<and> qty \<le> 5 \<and> py_round unit_price 2 = unit_price \<and>
      \<bar>line_total - unit_price * of_int qty\<bar> \<le> 1 / 100", OF _ run rin])
    fix oid i s r s'
    assume "item_row R n_products oid i s = Inr (r, s')"
    from item_row_fields[OF assms this] obtain pid qty g where
      row: "r = [PInt i, PInt oid, PInt pid, PInt qty, PFloat (py_round (max 1 g) 2),
              PFloat (py_round (binary64 (py_round (max 1 g) 2 * of_int qty)) 2)]"
      and q: "1 \<le> qty" "qty \<le> 5" and g: "\<bar>g - 60\<bar> \<le> 450" by blast
    let ?u = "py_round (max 1 g) 2"
    note u = unit_price_bounds[OF g]
    have q': "(0::rat) \<le> of_int qty" "(of_int qty :: rat) \<le> 5" using q by simp_all
    have p0: "0 \<le> ?u * of_int qty" using u(1) q'(1) by simp
    have "?u * of_int qty \<le> 510 * 5" using u(1,2) q' by (intro mult_mono) simp_all
    then have p1: "?u * of_int qty \<le> 2 ^ 40" by simp
    from line_total_close[OF p0 p1] u(3) q row
    show "\<exists>qty unit_price line_total.
      r ! 3 = PInt qty \<and> r ! 4 = PFloat unit_price \<and> r ! 5 = PFloat line_total \<and>
      1 \<le> qty \<and> qty \<le> 5 \<and> py_round unit_price 2 = unit_price \<and>
      \<bar>line_total - unit_price * of_int qty\<bar> \<le> 1 / 100" by simp
  qed
qed

theorem line_total_matches_unit_price_times_quantity_witness:
  "rng_ok counter_source \<and>
   rows_of (gen_order_items counter_source 2 2 3 42) ! 1
     = [PInt 2, PInt 1, PInt 1, PInt 2, PFloat 160, PFloat 320] \<and>
   py_round 160 2 = 160 \<and> \<bar>(320::rat) - 160 * of_int 2\<bar> \<le> 1 / 100"
proof -
  have m: "rows_of (gen_order_items counter_source 2 2 3 42) ! 1
      \<in> set (rows_of (gen_order_items counter_source 2 2 3 42))"
    by (simp add: gen_order_items_2_2 rows_of_def)
  from line_total_matches_unit_price_times_quantity[OF counter_source_ok, of 2 2 3 42] m
  have "\<exists>qty unit_price line_total.
      rows_of (gen_order_items counter_source 2 2 3 42) ! 1 ! 3 = PInt qty \<and>
      rows_of (gen_order_items counter_source 2 2 3 42) ! 1 ! 4 = PFloat unit_price \<and>
      rows_of (gen_order_items counter_source 2 2 3 42) ! 1 ! 5 = PFloat line_total \<and>
      1 \<le> qty \<and> qty \<le> 5 \<and> py_round unit_price 2 = unit_price \<and>
      \<bar>line_total - unit_price * of_int qty\<bar> \<le> 1 / 100" by blast
  then show ?thesis using counter_source_ok by (simp add: gen_order_items_2_2 rows_of_def)
qed

subsection \<open>Cost and price\<close>

lemma product_row_fields:
  assumes "rng_ok R" "product_row R F pid st = Inr (r, st')"
  shows "\<exists>base u. 5 \<le> base \<and> base \<le> 900 \<and> 1/2 \<le> u \<and> u \<le> 85/100 \<and>
           r ! 4 = PFloat (py_round base 2) \<and>
           r ! 5 = PFloat (py_round (binary64 (py_round base 2 * u)) 2)"
proof -
  obtain s f where st: "st = (s, f)" by (cases st)
  from assms(2) st obtain c s1 where c: "py_choice R categories s = Inr (c, s1)"
    by (auto simp: product_row_def py_bind_def split: sum.splits)
  obtain cat subs brands where cc: "c = (cat, subs, brands)" by (cases c)
  from assms(2) st c cc obtain sub s2 where s2: "py_choice R subs s1 = Inr (sub, s2)"
    by (auto simp: product_row_def py_bind_def split: sum.splits)
  from assms(2) st c cc s2 obtain brand s3 where s3: "py_choice R brands s2 = Inr (brand, s3)"
    by (auto simp: product_row_def py_bind_def split: sum.splits)
  obtain base s4 where b: "rs_uniform R 5 900 s3 = (base, s4)" by (cases "rs_uniform R 5 900 s3")
  obtain u s5 where u: "rs_uniform R (1/2) (85/100) s4 = (u, s5)"
    by (cases "rs_uniform R (1/2) (85/100) s4")
  have br: "5 \<le> base \<and> base \<le> 900" using rng_ok_uniform[OF assms(1), of 5 900 s3] b by simp
  have ur: "1/2 \<le> u \<and> u \<le> 85/100"
    using rng_ok_uniform[OF assms(1), of "1/2" "85/100" s4] u by simp
  have "r ! 4 = PFloat (py_round base 2) \<and>
        r ! 5 = PFloat (py_round (binary64 (py_round base 2 * u)) 2)"
    using assms(2) st c cc s2 s3 b u
    by (auto simp: product_row_def py_bind_def Let_def split: prod.splits)
  with br ur show ?thesis by blast
qed

text \<open>
  Claim C3. In every product row the price is \<open>round(base, 2)\<close> for a draw \<open>base\<close> of
  \<open>uniform(5, 900)\<close>, the cost is \<open>round(price * u, 2)\<close> for a draw \<open>u\<close> of
  \<open>uniform(0.5, 0.85)\<close>, and the cost is at most the price, both being rounded values.
\<close>

theorem product_cost_at_most_price:
  assumes "rng_ok R"
  shows "\<forall>r \<in> set (rows_of (gen_products R F n_products st)).
    \<exists>base u price cost.
      5 \<le> base \<and> base \<le> 900 \<and> 1/2 \<le> u \<and> u \<le> 85/100 \<and>
      price = py_round base 2 \<and> cost = py_round (binary64 (price * u)) 2 \<and>
      r ! 4 = PFloat price \<and> r ! 5 = PFloat cost \<and> cost \<le> price"
proof
  fix r
  assume r: "r \<in> set (rows_of (gen_products R F n_products st))"
  obtain rows err st' where run: "run_generator (product_row R F) (nat n_products) 1 st = ((rows, err), st')"
    by (metis prod.exhaust)
  from r run have rin: "r \<in> set rows" by (simp add: gen_products_def rows_of_def)
  show "\<exists>base u price cost.
      5 \<le> base \<and> base \<le> 900 \<and> 1/2 \<le> u \<and> u \<le> 85/100 \<and>
      price = py_round base 2 \<and> cost = py_round (binary64 (price * u)) 2 \<and>
      r ! 4 = PFloat price \<and> r ! 5 = PFloat cost \<and> cost \<le> price"
  proof (rule run_generator_set[where P = "\<lambda>r. \<exists>base u price cost.
      5 \<le> base \<and> base \<le> 900 \<and> 1/2 \<le> u \<and> u \<le> 85/100 \<and>
      price = py_round base 2 \<and> cost = py_round (binary64 (price * u)) 2 \<and>
      r ! 4 = PFloat price \<and> r ! 5 = PFloat cost \<and> cost \<le> price", OF _ run rin])
    fix i st r st'
    assume "product_row R F i st = Inr (r, st')"
    from product_row_fields[OF assms this] obtain base u where
      b: "5 \<le> base" "base \<le> 900" and u: "1/2 \<le> u" "u \<le> 85/100"
      and row: "r ! 4 = PFloat (py_round base 2)"
        "r ! 5 = PFloat (py_round (binary64 (py_round base 2 * u)) 2)" by blast
    have "py_round (binary64 (py_round base 2 * u)) 2 \<le> py_round base 2"
      using b u by (intro cost_le_price) simp_all
    with b u row show "\<exists>base u price cost.
      5 \<le> base \<and> base \<le> 900 \<and> 1/2 \<le> u \<and> u \<le> 85/100 \<and>
      price = py_round base 2 \<and> cost = py_round (binary64 (price * u)) 2 \<and>
      r ! 4 = PFloat price \<and> r ! 5 = PFloat cost \<and> cost \<le> price" by blast
  qed
qed

lemma gen_products_1:
  "rows_of (gen_products counter_source (counter_faker 20000) 1 (42, 42)) =
     [[PInt 1, PStr ''Outdoors'', PStr ''Fishing'', PStr ''Rivera'', PFloat (915 / 4),
       PFloat (5432818894236549 / 35184372088832), PStr ''2024-08-23'', PInt 1]]"
  apply (simp add: gen_products_def rows_of_def product_row_def py_bind_def py_choice_def
      categories_def counter_source_def counter_faker_def Let_def)
  apply code_simp
  done

theorem product_cost_at_most_price_witness:
  "rng_ok counter_source \<and>
   rows_of (gen_products counter_source (counter_faker 20000) 1 (42, 42)) ! 0 ! 4 = PFloat (915 / 4) \<and>
   rows_of (gen_products counter_source (counter_faker 20000) 1 (42, 42)) ! 0 ! 5
     = PFloat (5432818894236549 / 35184372088832) \<and>
   (5432818894236549 / 35184372088832 :: rat) \<le> 915 / 4"
proof -
  have m: "rows_of (gen_products counter_source (counter_faker 20000) 1 (42, 42)) ! 0
      \<in> set (rows_of (gen_products counter_source (counter_faker 20000) 1 (42, 42)))"
    by (simp add: gen_products_1)
  from product_cost_at_most_price[OF counter_source_ok, of "counter_faker 20000" 1 "(42, 42)"] m
  have "\<exists>base u price cost.
      5 \<le> base \<and> base \<le> 900 \<and> 1/2 \<le> u \<and> u \<le> 85/100 \<and>
      price = py_round base 2 \<and> cost = py_round (binary64 (price * u)) 2 \<and>
      rows_of (gen_products counter_source (counter_faker 20000) 1 (42, 42)) ! 0 ! 4 = PFloat price \<and>
      rows_of (gen_products counter_source (counter_faker 20000) 1 (42, 42)) ! 0 ! 5 = PFloat cost \<and>
      cost \<le> price" by blast
  then show ?thesis using counter_source_ok by (auto simp: gen_products_1)
qed

subsection \<open>Customer emails\<close>

lemma digit_cases:
  assumes "0 \<le> d" "d < 10"
  shows "d = 0 \<or> d = 1 \<or> d = 2 \<or> d = 3 \<or> d = 4 \<or> d = 5 \<or> d = 6 \<or> d = 7 \<or> d = 8 \<or> d = (9::int)"
  using assms by arith

lemma of_char_digit:
  assumes "0 \<le> d" "d < 10"
  shows "(of_char (digit_char d) :: nat) = 48 + nat d"
  using digit_cases[OF assms] by (elim disjE) (simp_all add: digit_char_def)

lemma digit_char_inj:
  assumes "0 \<le> a" "a < 10" "0 \<le> b" "b < 10" "digit_char a = digit_char b"
  shows "a = b"
proof -
  have "(of_char (digit_char a) :: nat) = of_char (digit_char b)" using assms(5) by simp
  then have "48 + nat a = 48 + nat b"
    using of_char_digit[OF assms(1,2)] of_char_digit[OF assms(3,4)] by simp
  then show ?thesis using assms(1,3) by simp
qed

lemma digit_char_not_dot:
  assumes "0 \<le> d" "d < 10"
  shows "digit_char d \<noteq> CHR ''.''"
proof
  assume "digit_char d = CHR ''.''"
  then have "(of_char (digit_char d) :: nat) = of_char CHR ''.''" by simp
  then show False using of_char_digit[OF assms] by simp
qed

lemma lower_char_digit:
  assumes "0 \<le> d" "d < 10"
  shows "lower_char (digit_char d) = digit_char d"
proof -
  have "nat d < 10" using assms by simp
  then show ?thesis using of_char_digit[OF assms] by (simp add: lower_char_def Let_def)
qed

lemma digits_nonempty: "digits n \<noteq> []"
  by (subst digits.simps) simp

lemma digits_chars:
  assumes "0 \<le> n" "c \<in> set (digits n)"
  shows "\<exists>d. 0 \<le> d \<and> d < 10 \<and> c = digit_char d"
  using assms
proof (induction n rule: digits.induct)
  case (1 n)
  show ?case
  proof (cases "n < 10")
    case True
    with "1.prems" show ?thesis by (subst (asm) digits.simps) auto
  next
    case False
    from "1.prems"(2) False have "c \<in> set (digits (n div 10)) \<or> c = digit_char (n mod 10)"
      by (subst (asm) digits.simps) auto
    then show ?thesis
    proof
      assume "c \<in> set (digits (n div 10))"
      moreover have "0 \<le> n div 10" using "1.prems"(1) by simp
      ultimately show ?thesis using "1.IH"[OF False] by blast
    next
      assume "c = digit_char (n mod 10)"
      moreover have "0 \<le> n mod 10" "n mod 10 < 10" by simp_all
      ultimately show ?thesis by blast
    qed
  qed
qed

lemma digits_no_dot:
  assumes "0 \<le> n"
  shows "CHR ''.'' \<notin> set (digits n)"
proof
  assume "CHR ''.'' \<in> set (digits n)"
  from digits_chars[OF assms this] obtain d where "0 \<le> d" "d < 10" "CHR ''.'' = digit_char d"
    by blast
  then show False using digit_char_not_dot[of d] by simp
qed

lemma py_lower_digits:
  assumes "0 \<le> n"
  shows "py_lower (digits n) = digits n"
  unfolding py_lower_def
proof (rule map_idI)
  fix c assume "c \<in> set (digits n)"
  from digits_chars[OF assms this] obtain d where "0 \<le> d" "d < 10" "c = digit_char d"
    by blast
  then show "lower_char c = c" using lower_char_digit[of d] by simp
qed

lemma digits_inj:
  assumes "0 \<le> m" "0 \<le> n" "digits m = digits n"
  shows "m = n"
  using assms
proof (induction m arbitrary: n rule: digits.induct)
  case (1 m)
  show ?case
  proof (cases "m < 10")
    case m: True
    show ?thesis
    proof (cases "n < 10")
      case True
      from "1.prems"(3) m True have "digit_char m = digit_char n"
        by (simp add: digits.simps[of m] digits.simps[of n])
      then show ?thesis using digit_char_inj "1.prems"(1,2) m True by blast
    next
      case False
      from "1.prems"(3) m False have "[digit_char m] = digits (n div 10) @ [digit_char (n mod 10)]"
        by (simp add: digits.simps[of m] digits.simps[of n])
      then show ?thesis using digits_nonempty[of "n div 10"] by simp
    qed
  next
    case m: False
    show ?thesis
    proof (cases "n < 10")
      case True
      from "1.prems"(3) m True have "digits (m div 10) @ [digit_char (m mod 10)] = [digit_char n]"
        by (simp add: digits.simps[of m] digits.simps[of n])
      then show ?thesis using digits_nonempty[of "m div 10"] by simp
    next
      case False
      from "1.prems"(3) m False
      have "digits (m div 10) @ [digit_char (m mod 10)] = digits (n div 10) @ [digit_char (n mod 10)]"
        by (simp add: digits.simps[of m] digits.simps[of n])
      then have d: "digits (m div 10) = digits (n div 10)"
        and l: "digit_char (m mod 10) = digit_char (n mod 10)" by simp_all
      have "m div 10 = n div 10"
        using "1.IH"[OF m _ _ d] "1.prems"(1,2) by simp
      moreover have "m mod 10 = n mod 10"
        by (rule digit_char_inj[OF _ _ _ _ l]) simp_all
      ultimately show ?thesis by (metis div_mult_mod_eq)
    qed
  qed
qed

lemma last_component:
  assumes "a1 @ c # d1 = a2 @ c # d2" "c \<notin> set d1" "c \<notin> set d2"
  shows "d1 = d2"
proof -
  have "rev d1 @ c # rev a1 = rev d2 @ c # rev a2"
    using arg_cong[OF assms(1), of rev] by simp
  then have "takeWhile (\<lambda>x. x \<noteq> c) (rev d1 @ c # rev a1) = takeWhile (\<lambda>x. x \<noteq> c) (rev d2 @ c # rev a2)"
    by simp
  moreover have "takeWhile (\<lambda>x. x \<noteq> c) (rev d1 @ c # rev a1) = rev d1"
    using assms(2) by (auto simp: takeWhile_tail)
  moreover have "takeWhile (\<lambda>x. x \<noteq> c) (rev d2 @ c # rev a2) = rev d2"
    using assms(3) by (auto simp: takeWhile_tail)
  ultimately show ?thesis by simp
qed

lemma py_lower_append: "py_lower (a @ b) = py_lower a @ py_lower b"
  by (simp add: py_lower_def)

lemma py_lower_suffix: "py_lower ''.'' = ''.''" "py_lower ''@example.com'' = ''@example.com''"
  by (simp_all add: py_lower_def lower_char_def)

lemma customer_email_shape:
  assumes "0 \<le> cid"
  shows "customer_email first lastn cid
           = py_lower (first @ ''.'' @ lastn) @ CHR ''.'' # digits cid @ ''@example.com''"
  using assms py_lower_digits[OF assms, unfolded py_lower_def]
  by (simp add: customer_email_def py_str_int_def py_lower_def lower_char_def)

lemma customer_email_inj:
  assumes "0 \<le> c1" "0 \<le> c2" "customer_email f1 l1 c1 = customer_email f2 l2 c2"
  shows "c1 = c2"
proof -
  from assms(3) have "py_lower (f1 @ ''.'' @ l1) @ CHR ''.'' # digits c1
      = py_lower (f2 @ ''.'' @ l2) @ CHR ''.'' # digits c2"
    unfolding customer_email_shape[OF assms(1)] customer_email_shape[OF assms(2)]
    by (simp del: append_assoc add: append_assoc[symmetric])
  from last_component[OF this digits_no_dot[OF assms(1)] digits_no_dot[OF assms(2)]]
  show ?thesis using digits_inj assms(1,2) by blast
qed

lemma customer_row_email:
  "customer_row R F cid st = Inr (r, st') \<Longrightarrow> \<exists>f l. r ! 3 = PStr (customer_email f l cid)"
  apply (auto simp: customer_row_def py_bind_def Let_def split: prod.splits sum.splits)
  apply blast
  done

text \<open>
  Claim C10. For every count the customer producer finishes without raising, emits that
  many rows (none for a count below 1), and the email fields of the rows are pairwise
  distinct, whatever names the Faker instance returns.
\<close>

theorem customer_emails_distinct:
  "raised_of (gen_customers R F n_customers st) = None \<and>
   length (rows_of (gen_customers R F n_customers st)) = nat n_customers \<and>
   distinct (map (\<lambda>r. r ! 3) (rows_of (gen_customers R F n_customers st)))"
proof -
  obtain rows err st' where run: "run_generator (customer_row R F) (nat n_customers) 1 st = ((rows, err), st')"
    by (metis prod.exhaust)
  have e: "\<exists>f l. rows ! k ! 3 = PStr (customer_email f l (1 + int k))" if "k < length rows" for k
    by (rule run_generator_nth[where P = "\<lambda>i r. \<exists>f l. r ! 3 = PStr (customer_email f l i)",
          OF customer_row_email run that])
  have "distinct (map (\<lambda>r. r ! 3) rows)"
    unfolding distinct_conv_nth
  proof (intro allI impI)
    fix i j
    assume i: "i < length (map (\<lambda>r. r ! 3) rows)" and j: "j < length (map (\<lambda>r. r ! 3) rows)"
      and ne: "i \<noteq> j"
    from e[of i] i obtain f1 l1 where a: "rows ! i ! 3 = PStr (customer_email f1 l1 (1 + int i))"
      by auto
    from e[of j] j obtain f2 l2 where b: "rows ! j ! 3 = PStr (customer_email f2 l2 (1 + int j))"
      by auto
    have "customer_email f1 l1 (1 + int i) \<noteq> customer_email f2 l2 (1 + int j)"
      using customer_email_inj[of "1 + int i" "1 + int j" f1 l1 f2 l2] ne by auto
    then show "map (\<lambda>r. r ! 3) rows ! i \<noteq> map (\<lambda>r. r ! 3) rows ! j"
      using a b i j by simp
  qed
  then have "distinct (map (\<lambda>r. r ! 3) (rows_of (gen_customers R F n_customers st)))"
    using run by (simp add: gen_customers_def rows_of_def)
  with gen_customers_total[of R F n_customers st] show ?thesis by simp
qed

lemma gen_customers_2:
  "rows_of (gen_customers counter_source (counter_faker 20000) 2 (42, 42)) =
     [[PInt 1, PStr ''Ann'', PStr ''Kim'', PStr ''ann.kim.1@example.com'', PStr ''2024-08-21'',
       PStr ''CA'', PStr ''Kyiv'', PInt 1, PStr ''email''],
      [PInt 2, PStr ''Bob'', PStr ''Kim'', PStr ''bob.kim.2@example.com'', PStr ''2024-08-17'',
       PStr ''NL'', PStr ''Lviv'', PInt 1, PStr ''referral'']]"
  apply (simp add: gen_customers_def rows_of_def unroll_2 customer_row_def py_bind_def
      py_choice_def countries_def sources_def counter_source_def counter_faker_def Let_def)
  apply code_simp
  done

theorem customer_emails_distinct_witness:
  "length (rows_of (gen_customers counter_source (counter_faker 20000) 2 (42, 42))) = 2 \<and>
   map (\<lambda>r. r ! 3) (rows_of (gen_customers counter_source (counter_faker 20000) 2 (42, 42)))
     = [PStr ''ann.kim.1@example.com'', PStr ''bob.kim.2@example.com''] \<and>
   distinct (map (\<lambda>r. r ! 3) (rows_of (gen_customers counter_source (counter_faker 20000) 2 (42, 42))))"
  using customer_emails_distinct[of counter_source "counter_faker 20000" 2 "(42, 42)"]
  by (simp add: gen_customers_2)

subsection \<open>The sink writer\<close>







lemma write_rows_ok:
  assumes "chunk \<noteq> 0"
  shows "\<exists>printed. write_rows chunk w rows
           = ((concat (map csv_writerow rows), printed), Inr (w + int (length rows)))"
proof (induction rows arbitrary: w)
  case Nil
  then show ?case by simp
next
  case (Cons r rows)
  from Cons[of "w + 1"] obtain printed where
    "write_rows chunk (w + 1) rows
       = ((concat (map csv_writerow rows), printed), Inr (w + 1 + int (length rows)))" by blast
  then show ?case using assms by (simp add: Let_def)
qed

lemma write_rows_chunk_zero:
  "write_rows 0 w (r # rs) = ((csv_writerow r, []), Inl ZeroDivisionError)"
  by simp

text \<open>A chunk size of 0 is no size: the first row is written, then the remainder raises.\<close>

lemma write_csv_chunk_zero:
  "write_csv path header (r # rs, raised) 0
     = (csv_writerow header @ csv_writerow r, [], Inl ZeroDivisionError)"
  by (simp add: write_csv_def)

lemma write_csv_text:
  assumes "chunk \<noteq> 0"
  shows "fst (write_csv path header (rows, raised) chunk)
           = csv_writerow header @ concat (map csv_writerow rows)"
    and "snd (snd (write_csv path header (rows, raised) chunk))
           = (case raised of None \<Rightarrow> Inr (int (length rows)) | Some e \<Rightarrow> Inl e)"
proof -
  obtain body printed res where w: "write_rows chunk 0 rows = ((body, printed), res)"
    by (metis prod.exhaust)
  from write_rows_ok[OF assms, of 0 rows] w
  have b: "body = concat (map csv_writerow rows)" and r: "res = Inr (int (length rows))" by auto
  show "fst (write_csv path header (rows, raised) chunk)
           = csv_writerow header @ concat (map csv_writerow rows)"
    using w b r by (simp add: write_csv_def split: option.splits)
  show "snd (snd (write_csv path header (rows, raised) chunk))
           = (case raised of None \<Rightarrow> Inr (int (length rows)) | Some e \<Rightarrow> Inl e)"
    using w b r by (simp add: write_csv_def split: option.splits)
qed




subsection \<open>The stages of a run\<close>

lemma write_and_load_eq:
  "write_and_load db table path header (rows, raised) w =
     (case raised of
        Some e \<Rightarrow>
          (w\<lparr>files := (files w)(path := Some (csv_writerow header @ concat (map csv_writerow rows)))\<rparr>,
           Inl e)
      | None \<Rightarrow>
          (w\<lparr>files := (files w)(path := Some (csv_writerow header @ concat (map csv_writerow rows))),
             tables := (tables w)((db, table) := tables w (db, table)
                @ data_lines (csv_writerow header @ concat (map csv_writerow rows)))\<rparr>,
           Inr (int (length rows))))"
proof -
  obtain tx printed res where w: "write_csv path header (rows, raised) 100000 = (tx, printed, res)"
    by (metis prod.exhaust)
  have t: "tx = csv_writerow header @ concat (map csv_writerow rows)"
    using write_csv_text(1)[of 100000 path header rows raised] w by simp
  have r: "res = (case raised of None \<Rightarrow> Inr (int (length rows)) | Some e \<Rightarrow> Inl e)"
    using write_csv_text(2)[of 100000 path header rows raised] w by simp
  show ?thesis
    unfolding write_and_load_def w
    by (simp add: t r load_csv_def Let_def split: option.splits)
qed

lemma path_join_inj: "path_join d a = path_join d b \<Longrightarrow> a = b"
  by (auto simp: path_join_def split: if_splits)

lemma csv_paths_distinct:
  "path_join d ''customers.csv'' \<noteq> path_join d ''products.csv''"
  "path_join d ''orders.csv'' \<noteq> path_join d ''products.csv''"
  "path_join d ''orders.csv'' \<noteq> path_join d ''customers.csv''"
  "path_join d ''order_items.csv'' \<noteq> path_join d ''products.csv''"
  "path_join d ''order_items.csv'' \<noteq> path_join d ''customers.csv''"
  "path_join d ''order_items.csv'' \<noteq> path_join d ''orders.csv''"
  using path_join_inj by fastforce+

lemma header_only_file:
  "data_lines (csv_writerow customers_header) = []"
  by (simp add: data_lines_def split_lines_def csv_writerow_def customers_header_def
      csv_field_def needs_quote_def)

lemma gen_order_items_no_orders:
  "n_orders \<le> 0 \<Longrightarrow> gen_order_items R n_orders n_products avg_items s = (([], None), s)"
  by (simp add: gen_order_items_def)

lemma gen_orders_no_orders:
  "n_orders \<le> 0 \<Longrightarrow> gen_orders R F n_orders n_customers now s = (([], None), s)"
  by (simp add: gen_orders_run)

lemma main_zero_customers:
  assumes "rng_ok R" "customers a = 0"
  shows "files (fst (main a R F now w0)) (path_join (outdir a) ''customers.csv'')
           = Some (csv_writerow customers_header) \<and>
    data_lines (csv_writerow customers_header) = [] \<and>
    tables (fst (main a R F now w0)) (database a, ''customers'')
      = tables w0 (database a, ''customers'') \<and>
    (0 < orders a \<longrightarrow>
       snd (main a R F now w0) = Inl ValueError \<and>
       files (fst (main a R F now w0)) (path_join (outdir a) ''orders.csv'')
         = Some (csv_writerow orders_header) \<and>
       files (fst (main a R F now w0)) (path_join (outdir a) ''order_items.csv'')
         = files w0 (path_join (outdir a) ''order_items.csv'')) \<and>
    (orders a \<le> 0 \<longrightarrow> (\<exists>p. snd (main a R F now w0) = Inr (p, 0, 0, 0)))"
proof -
  obtain prows perr s1 f1 where
    p: "gen_products R F (products a) (rs_seed R 42, fk_seed_instance F 42) = ((prows, perr), (s1, f1))"
    by (metis prod.exhaust)
  have "perr = None"
    using gen_products_total[OF assms(1), of F "products a" "(rs_seed R 42, fk_seed_instance F 42)"] p
    by (simp add: raised_of_def)
  note p = p[unfolded this]
  have c: "gen_customers R F 0 (s1, f1) = (([], None), (s1, f1))"
    by (simp add: gen_customers_def)
  show ?thesis
  proof (cases "0 < orders a")
    case True
    have o: "gen_orders R F (orders a) 0 now s1 = (([], Some ValueError), s1)"
      by (rule gen_orders_raises) (use True in simp_all)
    show ?thesis
      using True
      by (simp add: main_def Let_def p c o assms(2) write_and_load_eq csv_paths_distinct
          csv_paths_distinct[symmetric] header_only_file)
  next
    case False
    then have le: "orders a \<le> 0" by simp
    have o: "gen_orders R F (orders a) 0 now s1 = (([], None), s1)"
      by (rule gen_orders_no_orders[OF le])
    have i: "gen_order_items R (orders a) (products a) (items_avg a) s1 = (([], None), s1)"
      by (rule gen_order_items_no_orders[OF le])
    show ?thesis
      using False
      by (simp add: main_def Let_def p c o i assms(2) write_and_load_eq csv_paths_distinct
          csv_paths_distinct[symmetric] header_only_file)
  qed
qed

text \<open>
  Claim C2, amended. With a customer count of 0 the customer stage writes a customers
  file holding the header row only and loads no row. A run with a positive order count
  (the default) then raises \<^verbatim>\<open>ValueError\<close> in the order stage, on the draw
  \<^verbatim>\<open>randint(1, 0)\<close> of its first row: the orders file is left with its header only and the
  order-items file is never written. The run ends without raising exactly when the order
  count is not positive.
\<close>

theorem zero_customers_run:
  assumes "rng_ok R" "customers a = 0"
  shows "files (fst (main a R F now w0)) (path_join (outdir a) ''customers.csv'')
           = Some (csv_writerow customers_header) \<and>
    data_lines (csv_writerow customers_header) = [] \<and>
    tables (fst (main a R F now w0)) (database a, ''customers'')
      = tables w0 (database a, ''customers'') \<and>
    (0 < orders a \<longrightarrow>
       snd (main a R F now w0) = Inl ValueError \<and>
       files (fst (main a R F now w0)) (path_join (outdir a) ''orders.csv'')
         = Some (csv_writerow orders_header) \<and>
       files (fst (main a R F now w0)) (path_join (outdir a) ''order_items.csv'')
         = files w0 (path_join (outdir a) ''order_items.csv'')) \<and>
    (orders a \<le> 0 \<longrightarrow> (\<exists>p. snd (main a R F now w0) = Inr (p, 0, 0, 0)))"
  using assms by (rule main_zero_customers)

theorem zero_customers_run_witness:
  "rng_ok counter_source \<and> customers (default_args\<lparr>customers := 0\<rparr>) = 0 \<and>
   files (fst (main (default_args\<lparr>customers := 0\<rparr>) counter_source (counter_faker 20000)
       1700000000123456 empty_world)) ''data/customers.csv''
     = Some (csv_writerow customers_header) \<and>
   tables (fst (main (default_args\<lparr>customers := 0\<rparr>) counter_source (counter_faker 20000)
       1700000000123456 empty_world)) (''ecommerce_synth'', ''customers'') = [] \<and>
   snd (main (default_args\<lparr>customers := 0\<rparr>) counter_source (counter_faker 20000)
       1700000000123456 empty_world) = Inl ValueError"
  using zero_customers_run[OF counter_source_ok, of "default_args\<lparr>customers := 0\<rparr>"
      "counter_faker 20000" 1700000000123456 empty_world] counter_source_ok
  by (simp add: default_args_def path_join_def empty_world_def)

text \<open>
  The run the claim describes: every argument at its default except a customer count of 0.
  It raises.
\<close>

theorem zero_customers_run_raises:
  "snd (main (default_args\<lparr>customers := 0\<rparr>) counter_source (counter_faker 20000)
      1700000000123456 empty_world) = Inl ValueError"
  using main_zero_customers[OF counter_source_ok, of "default_args\<lparr>customers := 0\<rparr>"
      "counter_faker 20000" 1700000000123456 empty_world]
  by (simp add: default_args_def)

subsection \<open>What a run owes to the clock\<close>

lemma run_generator_sim:
  assumes step: "\<And>i st1 st2. rel st1 st2 \<Longrightarrow>
      (\<exists>e. body1 i st1 = Inl e \<and> body2 i st2 = Inl e) \<or>
      (\<exists>r1 r2 st1' st2'. body1 i st1 = Inr (r1, st1') \<and> body2 i st2 = Inr (r2, st2') \<and> rel st1' st2')"
    and "rel st1 st2"
  shows "\<exists>rows1 rows2 err st1' st2'.
      run_generator body1 n i st1 = ((rows1, err), st1') \<and>
      run_generator body2 n i st2 = ((rows2, err), st2') \<and>
      length rows1 = length rows2 \<and> rel st1' st2'"
  using assms(2)
proof (induction n arbitrary: i st1 st2)
  case 0
  then show ?case by simp
next
  case (Suc n)
  from step[OF Suc.prems, of i] show ?case
  proof (elim disjE exE conjE)
    fix e assume "body1 i st1 = Inl e" "body2 i st2 = Inl e"
    then show ?thesis using Suc.prems by simp
  next
    fix r1 r2 st1' st2'
    assume b: "body1 i st1 = Inr (r1, st1')" "body2 i st2 = Inr (r2, st2')" and r: "rel st1' st2'"
    from Suc.IH[OF r, of "i + 1"] obtain rows1 rows2 err t1 t2 where
      "run_generator body1 n (i + 1) st1' = ((rows1, err), t1)"
      "run_generator body2 n (i + 1) st2' = ((rows2, err), t2)"
      "length rows1 = length rows2" "rel t1 t2" by blast
    then show ?thesis using b by simp
  qed
qed

lemma product_row_sim:
  "(\<exists>e. product_row R F1 i (s, f1) = Inl e \<and> product_row R F2 i (s, f2) = Inl e) \<or>
   (\<exists>r1 r2 s' f1' f2'. product_row R F1 i (s, f1) = Inr (r1, (s', f1')) \<and>
      product_row R F2 i (s, f2) = Inr (r2, (s', f2')))"
  by (auto simp: product_row_def py_bind_def Let_def split: prod.splits sum.splits)

lemma customer_row_sim:
  "(\<exists>e. customer_row R F1 i (s, f1) = Inl e \<and> customer_row R F2 i (s, f2) = Inl e) \<or>
   (\<exists>r1 r2 s' f1' f2'. customer_row R F1 i (s, f1) = Inr (r1, (s', f1')) \<and>
      customer_row R F2 i (s, f2) = Inr (r2, (s', f2')))"
  by (auto simp: customer_row_def py_bind_def Let_def split: prod.splits sum.splits)

lemma order_row_sim:
  "(\<exists>e. order_row R n_customers (now1 - timedelta_days 730) now1 i s = Inl e \<and>
        order_row R n_customers (now2 - timedelta_days 730) now2 i s = Inl e) \<or>
   (\<exists>r1 r2 s'. order_row R n_customers (now1 - timedelta_days 730) now1 i s = Inr (r1, s') \<and>
        order_row R n_customers (now2 - timedelta_days 730) now2 i s = Inr (r2, s'))"
  by (auto simp: order_row_def rand_datetime_730 py_bind_def Let_def split: prod.splits sum.splits)

lemma gen_products_sim:
  "\<exists>rows1 rows2 err s' f1' f2'.
     gen_products R F1 n (s, f1) = ((rows1, err), (s', f1')) \<and>
     gen_products R F2 n (s, f2) = ((rows2, err), (s', f2')) \<and> length rows1 = length rows2"
proof -
  have "\<exists>rows1 rows2 err st1' st2'.
      run_generator (product_row R F1) (nat n) 1 (s, f1) = ((rows1, err), st1') \<and>
      run_generator (product_row R F2) (nat n) 1 (s, f2) = ((rows2, err), st2') \<and>
      length rows1 = length rows2 \<and> fst st1' = fst st2'"
  proof (rule run_generator_sim[where rel = "\<lambda>a b. fst a = fst b"])
    fix i and st1 :: "'a \<times> 'b" and st2 :: "'a \<times> 'c"
    assume "fst st1 = fst st2"
    then obtain s f1 f2 where "st1 = (s, f1)" "st2 = (s, f2)" by (cases st1; cases st2) auto
    then show "(\<exists>e. product_row R F1 i st1 = Inl e \<and> product_row R F2 i st2 = Inl e) \<or>
      (\<exists>r1 r2 st1' st2'. product_row R F1 i st1 = Inr (r1, st1') \<and>
         product_row R F2 i st2 = Inr (r2, st2') \<and> fst st1' = fst st2')"
      using product_row_sim[of R F1 i s f1 F2 f2] by auto
  qed simp
  then show ?thesis unfolding gen_products_def by (metis prod.collapse)
qed

lemma gen_customers_sim:
  "\<exists>rows1 rows2 err s' f1' f2'.
     gen_customers R F1 n (s, f1) = ((rows1, err), (s', f1')) \<and>
     gen_customers R F2 n (s, f2) = ((rows2, err), (s', f2')) \<and> length rows1 = length rows2"
proof -
  have "\<exists>rows1 rows2 err st1' st2'.
      run_generator (customer_row R F1) (nat n) 1 (s, f1) = ((rows1, err), st1') \<and>
      run_generator (customer_row R F2) (nat n) 1 (s, f2) = ((rows2, err), st2') \<and>
      length rows1 = length rows2 \<and> fst st1' = fst st2'"
  proof (rule run_generator_sim[where rel = "\<lambda>a b. fst a = fst b"])
    fix i and st1 :: "'a \<times> 'b" and st2 :: "'a \<times> 'c"
    assume "fst st1 = fst st2"
    then obtain s f1 f2 where "st1 = (s, f1)" "st2 = (s, f2)" by (cases st1; cases st2) auto
    then show "(\<exists>e. customer_row R F1 i st1 = Inl e \<and> customer_row R F2 i st2 = Inl e) \<or>
      (\<exists>r1 r2 st1' st2'. customer_row R F1 i st1 = Inr (r1, st1') \<and>
         customer_row R F2 i st2 = Inr (r2, st2') \<and> fst st1' = fst st2')"
      using customer_row_sim[of R F1 i s f1 F2 f2] by auto
  qed simp
  then show ?thesis unfolding gen_customers_def by (metis prod.collapse)
qed

lemma gen_orders_sim:
  "\<exists>rows1 rows2 err s'.
     gen_orders R F1 n n_customers now1 s = ((rows1, err), s') \<and>
     gen_orders R F2 n n_customers now2 s = ((rows2, err), s') \<and> length rows1 = length rows2"
proof -
  have "\<exists>rows1 rows2 err st1' st2'.
      run_generator (order_row R n_customers (now1 - timedelta_days 730) now1) (nat n) 1 s
        = ((rows1, err), st1') \<and>
      run_generator (order_row R n_customers (now2 - timedelta_days 730) now2) (nat n) 1 s
        = ((rows2, err), st2') \<and>
      length rows1 = length rows2 \<and> st1' = st2'"
  proof (rule run_generator_sim[where rel = "(=)"])
    fix i and st1 st2 :: 'a
    assume "st1 = st2"
    then show "(\<exists>e. order_row R n_customers (now1 - timedelta_days 730) now1 i st1 = Inl e \<and>
          order_row R n_customers (now2 - timedelta_days 730) now2 i st2 = Inl e) \<or>
      (\<exists>r1 r2 st1' st2'. order_row R n_customers (now1 - timedelta_days 730) now1 i st1 = Inr (r1, st1') \<and>
          order_row R n_customers (now2 - timedelta_days 730) now2 i st2 = Inr (r2, st2') \<and> st1' = st2')"
      using order_row_sim[of R n_customers now1 i st1 now2] by auto
  qed simp
  then show ?thesis unfolding gen_orders_run by blast
qed

text \<open>
  Claim C1, amended. Two runs with the same seed and the same counts leave the same
  order-items file and end the same way (the same row counts, or the same exception),
  whatever the clock reads in each and whatever the Faker instance returns. The dates of
  the other three files are taken relative to the current date and time; the theorem
  says nothing of those files.
\<close>

theorem order_items_file_independent_of_clock:
  "files (fst (main a R F1 now1 w0)) (path_join (outdir a) ''order_items.csv'')
     = files (fst (main a R F2 now2 w0)) (path_join (outdir a) ''order_items.csv'') \<and>
   snd (main a R F1 now1 w0) = snd (main a R F2 now2 w0)"
proof -
  from gen_products_sim[of R F1 "products a" "rs_seed R 42" "fk_seed_instance F1 42" F2
      "fk_seed_instance F2 42"]
  obtain p1 p2 perr s1 f1 g1 where
    p: "gen_products R F1 (products a) (rs_seed R 42, fk_seed_instance F1 42) = ((p1, perr), (s1, f1))"
       "gen_products R F2 (products a) (rs_seed R 42, fk_seed_instance F2 42) = ((p2, perr), (s1, g1))"
       "length p1 = length p2" by blast
  from gen_customers_sim[of R F1 "customers a" s1 f1 F2 g1]
  obtain c1 c2 cerr s2 f2 g2 where
    c: "gen_customers R F1 (customers a) (s1, f1) = ((c1, cerr), (s2, f2))"
       "gen_customers R F2 (customers a) (s1, g1) = ((c2, cerr), (s2, g2))"
       "length c1 = length c2" by blast
  from gen_orders_sim[of R F1 "orders a" "customers a" now1 s2 F2 now2]
  obtain o1 o2 oerr s3 where
    o: "gen_orders R F1 (orders a) (customers a) now1 s2 = ((o1, oerr), s3)"
       "gen_orders R F2 (orders a) (customers a) now2 s2 = ((o2, oerr), s3)"
       "length o1 = length o2" by blast
  obtain irows ierr s4 where
    i: "gen_order_items R (orders a) (products a) (items_avg a) s3 = ((irows, ierr), s4)"
    by (metis prod.exhaust)
  show ?thesis
    by (cases perr; cases cerr; cases oerr; cases ierr)
      (simp_all add: main_def Let_def p c o i write_and_load_eq csv_paths_distinct
        csv_paths_distinct[symmetric])
qed

theorem order_items_file_independent_of_clock_witness:
  "files (fst (main default_args counter_source (counter_faker 20000) 1700000000000000 empty_world))
       ''data/order_items.csv''
     = files (fst (main default_args counter_source (counter_faker 20001) 1700086400000000 empty_world))
       ''data/order_items.csv'' \<and>
   snd (main default_args counter_source (counter_faker 20000) 1700000000000000 empty_world)
     = snd (main default_args counter_source (counter_faker 20001) 1700086400000000 empty_world)"
  using order_items_file_independent_of_clock[of default_args counter_source "counter_faker 20000"
      1700000000000000 empty_world "counter_faker 20001" 1700086400000000]
  by (simp add: default_args_def path_join_def)

subsection \<open>A run at two readings of the clock\<close>

lemma main_orders_file:
  assumes "gen_products R F (products a) (rs_seed R 42, fk_seed_instance F 42) = ((prows, None), (s1, f1))"
    and "gen_customers R F (customers a) (s1, f1) = ((crows, None), (s2, f2))"
    and "gen_orders R F (orders a) (customers a) now s2 = ((orows, oerr), s3)"
  shows "files (fst (main a R F now w0)) (path_join (outdir a) ''orders.csv'')
           = Some (csv_writerow orders_header @ concat (map csv_writerow orows))"
proof -
  obtain irows ierr s4 where
    i: "gen_order_items R (orders a) (products a) (items_avg a) s3 = ((irows, ierr), s4)"
    by (metis prod.exhaust)
  show ?thesis
    by (cases oerr; cases ierr)
      (simp_all add: main_def Let_def assms i write_and_load_eq csv_paths_distinct
        csv_paths_distinct[symmetric])
qed

lemma products_run_1:
  "gen_products counter_source (counter_faker 20000) 1 (42, 42) =
     (([[PInt 1, PStr ''Outdoors'', PStr ''Fishing'', PStr ''Rivera'', PFloat (915 / 4),
         PFloat (5432818894236549 / 35184372088832), PStr ''2024-08-23'', PInt 1]], None),
      (48, 43))"
  apply (simp add: gen_products_def product_row_def py_bind_def py_choice_def
      categories_def counter_source_def counter_faker_def Let_def)
  apply code_simp
  done

lemma customers_run_1:
  "gen_customers counter_source (counter_faker 20000) 1 (48, 43) =
     (([[PInt 1, PStr ''Bob'', PStr ''Lee'', PStr ''bob.lee.1@example.com'', PStr ''2024-08-20'',
         PStr ''UA'', PStr ''Lviv'', PInt 0, PStr ''sem'']], None), (51, 47))"
  apply (simp add: gen_customers_def customer_row_def py_bind_def
      py_choice_def countries_def sources_def counter_source_def counter_faker_def Let_def)
  apply code_simp
  done

lemma orders_run_1:
  "gen_orders counter_source (counter_faker 20000) 1 1 1700000000000000 51 =
     (([[PInt 1, PInt 1, PStr ''2021-11-14 22:14:12'', PStr ''shipped'', PStr ''PLN'',
         PStr ''googlepay'', PStr ''IT'', PFloat 10, PFloat 225]], None), 60)"
  "gen_orders counter_source (counter_faker 20000) 1 1 1700086400000000 51 =
     (([[PInt 1, PInt 1, PStr ''2021-11-15 22:14:12'', PStr ''shipped'', PStr ''PLN'',
         PStr ''googlepay'', PStr ''IT'', PFloat 10, PFloat 225]], None), 60)"
   apply (simp add: gen_orders_run order_row_def rand_datetime_730 py_bind_def py_choice_def
      py_randint_def statuses_def currencies_def pay_methods_def countries_def
      counter_source_def timedelta_days_def timedelta_seconds_def Let_def)
   apply code_simp
  apply (simp add: gen_orders_run order_row_def rand_datetime_730 py_bind_def py_choice_def
      py_randint_def statuses_def currencies_def pay_methods_def countries_def
      counter_source_def timedelta_days_def timedelta_seconds_def Let_def)
  apply code_simp
  done

lemma orders_text_1:
  "csv_writerow orders_header =
     ''order_id,customer_id,order_date,status,currency,payment_method,shipping_country,discount,total_amount''
       @ [CHR 0x0D, CHR 0x0A]"
  "csv_writerow [PInt 1, PInt 1, PStr ''2021-11-14 22:14:12'', PStr ''shipped'', PStr ''PLN'',
         PStr ''googlepay'', PStr ''IT'', PFloat 10, PFloat 225]
     = ''1,1,2021-11-14 22:14:12,shipped,PLN,googlepay,IT,10.0,225.0'' @ [CHR 0x0D, CHR 0x0A]"
  "csv_writerow [PInt 1, PInt 1, PStr ''2021-11-15 22:14:12'', PStr ''shipped'', PStr ''PLN'',
         PStr ''googlepay'', PStr ''IT'', PFloat 10, PFloat 225]
     = ''1,1,2021-11-15 22:14:12,shipped,PLN,googlepay,IT,10.0,225.0'' @ [CHR 0x0D, CHR 0x0A]"
  by code_simp+

text \<open>
  Claim C1 as it stands fails: the same run (one product, one customer, one order, the
  same seed, the same Faker instance) started at two readings of the clock one day apart
  leaves two different orders files. The order date is drawn from the 730 days before
  the reading of \<^verbatim>\<open>datetime.utcnow()\<close> in \<^verbatim>\<open>daterange\<close>.
\<close>

theorem orders_file_depends_on_clock:
  "files (fst (main (default_args\<lparr>customers := 1, products := 1, orders := 1\<rparr>) counter_source
       (counter_faker 20000) 1700000000000000 empty_world)) ''data/orders.csv''
     = Some (''order_id,customer_id,order_date,status,currency,payment_method,shipping_country,discount,total_amount''
         @ [CHR 0x0D, CHR 0x0A]
         @ ''1,1,2021-11-14 22:14:12,shipped,PLN,googlepay,IT,10.0,225.0'' @ [CHR 0x0D, CHR 0x0A]) \<and>
   files (fst (main (default_args\<lparr>customers := 1, products := 1, orders := 1\<rparr>) counter_source
       (counter_faker 20000) 1700086400000000 empty_world)) ''data/orders.csv''
     = Some (''order_id,customer_id,order_date,status,currency,payment_method,shipping_country,discount,total_amount''
         @ [CHR 0x0D, CHR 0x0A]
         @ ''1,1,2021-11-15 22:14:12,shipped,PLN,googlepay,IT,10.0,225.0'' @ [CHR 0x0D, CHR 0x0A]) \<and>
   files (fst (main (default_args\<lparr>customers := 1, products := 1, orders := 1\<rparr>) counter_source
       (counter_faker 20000) 1700000000000000 empty_world)) ''data/orders.csv''
     \<noteq> files (fst (main (default_args\<lparr>customers := 1, products := 1, orders := 1\<rparr>) counter_source
       (counter_faker 20000) 1700086400000000 empty_world)) ''data/orders.csv''"
proof -
  let ?a = "default_args\<lparr>customers := 1, products := 1, orders := 1\<rparr>"
  have s: "rs_seed counter_source 42 = 42" "fk_seed_instance (counter_faker 20000) 42 = 42"
    by (simp_all add: counter_source_def counter_faker_def)
  have a: "products ?a = 1" "customers ?a = 1" "orders ?a = 1"
    "path_join (outdir ?a) ''orders.csv'' = ''data/orders.csv''"
    by (simp_all add: default_args_def path_join_def)
  have f1: "files (fst (main ?a counter_source (counter_faker 20000) 1700000000000000 empty_world))
      ''data/orders.csv''
    = Some (csv_writerow orders_header @ concat (map csv_writerow
        [[PInt 1, PInt 1, PStr ''2021-11-14 22:14:12'', PStr ''shipped'', PStr ''PLN'',
          PStr ''googlepay'', PStr ''IT'', PFloat 10, PFloat 225]]))"
    using main_orders_file[of counter_source "counter_faker 20000" ?a _ 48 43 _ 51 47
        1700000000000000 _ None 60 empty_world]
    unfolding s a using products_run_1 customers_run_1 orders_run_1(1) by simp
  have f2: "files (fst (main ?a counter_source (counter_faker 20000) 1700086400000000 empty_world))
      ''data/orders.csv''
    = Some (csv_writerow orders_header @ concat (map csv_writerow
        [[PInt 1, PInt 1, PStr ''2021-11-15 22:14:12'', PStr ''shipped'', PStr ''PLN'',
          PStr ''googlepay'', PStr ''IT'', PFloat 10, PFloat 225]]))"
    using main_orders_file[of counter_source "counter_faker 20000" ?a _ 48 43 _ 51 47
        1700086400000000 _ None 60 empty_world]
    unfolding s a using products_run_1 customers_run_1 orders_run_1(2) by simp
  show ?thesis unfolding f1 f2 by (simp add: orders_text_1)
qed

end
